theory Spec2Isabelle
  imports Main "HOL-Library.Code_Target_Nat"
begin

section \<open>JavaScript values\<close>

text \<open>
  Event documents, campaign conditions and template variables are JavaScript
  values. Numbers are the integer-valued ones, taken as exact integers (two
  integers past the 53 bits of a double are not told to be the same number);
  an array is an object whose properties are its indices. Strings are lists of
  code units below 256.
\<close>

datatype jsval =
    JUndefined
  | JNull
  | JBool bool
  | JNum int
  | JStr string
  | JObj "(string \<times> jsval) list"

datatype error =
    TypeError
  | TemplateNotFound
  | ValidationError
  | DuplicateKey
  | RenderError
  | DeliveryError string
  | InternalError

text \<open>\<^verbatim>\<open>!!v\<close>: the values that are not falsy.\<close>

fun truthy :: "jsval \<Rightarrow> bool" where
  "truthy JUndefined = False"
| "truthy JNull = False"
| "truthy (JBool b) = b"
| "truthy (JNum n) = (n \<noteq> 0)"
| "truthy (JStr s) = (s \<noteq> [])"
| "truthy (JObj fs) = True"

text \<open>
  \<^verbatim>\<open>v[part]\<close> on a value that is neither null nor undefined: the own property
  of an object, undefined otherwise. Inherited properties and the properties
  of primitive wrappers are left out: key paths name data fields.
\<close>

fun js_get :: "jsval \<Rightarrow> string \<Rightarrow> jsval" where
  "js_get (JObj fs) k = (case map_of fs k of Some v \<Rightarrow> v | None \<Rightarrow> JUndefined)"
| "js_get v k = JUndefined"

text \<open>
  \<^verbatim>\<open>a === b\<close>. Two objects are equal only when they are the same reference; a
  value of a condition and a value of an event never are.
\<close>

fun strict_eq :: "jsval \<Rightarrow> jsval \<Rightarrow> bool" where
  "strict_eq JUndefined JUndefined = True"
| "strict_eq JNull JNull = True"
| "strict_eq (JBool a) (JBool b) = (a = b)"
| "strict_eq (JNum a) (JNum b) = (a = b)"
| "strict_eq (JStr a) (JStr b) = (a = b)"
| "strict_eq a b = False"

text \<open>\<^verbatim>\<open>typeof v === 'object'\<close>\<close>

fun typeof_object :: "jsval \<Rightarrow> bool" where
  "typeof_object JNull = True"
| "typeof_object (JObj fs) = True"
| "typeof_object v = False"

text \<open>\<^verbatim>\<open>key.split('.')\<close>\<close>

fun split_dot :: "string \<Rightarrow> string list" where
  "split_dot [] = [[]]"
| "split_dot (c # cs) =
     (if c = CHR ''.'' then [] # split_dot cs
      else (case split_dot cs of [] \<Rightarrow> [[c]] | p # ps \<Rightarrow> (c # p) # ps))"

section \<open>Campaign conditions (src/models/campaign.model.js, matchesConditions)\<close>

text \<open>
  The descent along the parts of a key path:
  \<^verbatim>\<open>for (const part of keyParts) {
    if (!eventValue || !eventValue[part]) return false;
    eventValue = eventValue[part]; }\<close>
  \<open>None\<close> is the early \<^verbatim>\<open>return false\<close>.
\<close>

fun descend :: "jsval \<Rightarrow> string list \<Rightarrow> jsval option" where
  "descend v [] = Some v"
| "descend v (part # parts) =
     (if \<not> truthy v \<or> \<not> truthy (js_get v part) then None
      else descend (js_get v part) parts)"

text \<open>
  One iteration of the loop over \<^verbatim>\<open>Object.entries(this.conditions)\<close>.
  \<open>Inr False\<close> is \<^verbatim>\<open>return false\<close>, \<open>Inr True\<close> goes on to the next
  entry, \<open>Inl TypeError\<close> is the property read on a \<^verbatim>\<open>null\<close> condition
  value (\<^verbatim>\<open>typeof null === 'object'\<close>). The relational operators
  \<^verbatim>\<open><=\<close> and \<^verbatim>\<open>>=\<close> of JavaScript, which coerce their operands, are the
  parameters \<open>le\<close> and \<open>ge\<close>.
\<close>

definition checkCondition ::
  "(jsval \<Rightarrow> jsval \<Rightarrow> bool) \<Rightarrow> (jsval \<Rightarrow> jsval \<Rightarrow> bool) \<Rightarrow> jsval \<Rightarrow> string \<times> jsval \<Rightarrow> error + bool" where
  "checkCondition le ge event entry =
     (case descend event (split_dot (fst entry)) of
        None \<Rightarrow> Inr False
      | Some eventValue \<Rightarrow>
          (let v = snd entry in
           if typeof_object v then
             (if v = JNull then Inl TypeError
              else if js_get v ''exists'' \<noteq> JUndefined
                      \<and> \<not> strict_eq (JBool (truthy eventValue)) (js_get v ''exists'') then Inr False
              else if js_get v ''equals'' \<noteq> JUndefined
                      \<and> \<not> strict_eq eventValue (js_get v ''equals'') then Inr False
              else if js_get v ''gt'' \<noteq> JUndefined \<and> le eventValue (js_get v ''gt'') then Inr False
              else if js_get v ''lt'' \<noteq> JUndefined \<and> ge eventValue (js_get v ''lt'') then Inr False
              else Inr True)
           else if \<not> strict_eq eventValue v then Inr False
           else Inr True))"

fun conditionsLoop ::
  "(jsval \<Rightarrow> jsval \<Rightarrow> bool) \<Rightarrow> (jsval \<Rightarrow> jsval \<Rightarrow> bool) \<Rightarrow> jsval \<Rightarrow> (string \<times> jsval) list \<Rightarrow> error + bool" where
  "conditionsLoop le ge event [] = Inr True"
| "conditionsLoop le ge event (entry # entries) =
     (case checkCondition le ge event entry of
        Inl e \<Rightarrow> Inl e
      | Inr ok \<Rightarrow> if ok then conditionsLoop le ge event entries else Inr False)"

text \<open>
  The conditions are the entries of \<^verbatim>\<open>this.conditions\<close> in the order of
  \<^verbatim>\<open>Object.entries\<close>; a missing or empty condition object is the empty list.
\<close>

definition matchesConditions ::
  "(jsval \<Rightarrow> jsval \<Rightarrow> bool) \<Rightarrow> (jsval \<Rightarrow> jsval \<Rightarrow> bool) \<Rightarrow> (string \<times> jsval) list \<Rightarrow> jsval \<Rightarrow> error + bool" where
  "matchesConditions le ge conditions event =
     (if conditions = [] then Inr True else conditionsLoop le ge event conditions)"

text \<open>
  Reading a key path by plain property access, \<^verbatim>\<open>event[p1][p2]...\<close>, with
  undefined for a read below a value that has no such property.
\<close>

definition pathValue :: "jsval \<Rightarrow> string list \<Rightarrow> jsval" where
  "pathValue v parts = foldl js_get v parts"

text \<open>The falsy values a stored field can hold: 0, the empty string, false.\<close>

definition falsyValue :: "jsval \<Rightarrow> bool" where
  "falsyValue v = (v = JNum 0 \<or> v = JStr [] \<or> v = JBool False)"

section \<open>Strings and numbers\<close>

text \<open>The white space of \<^verbatim>\<open>\s\<close>, \<^verbatim>\<open>trim\<close> and \<^verbatim>\<open>parseInt\<close> among the code units below 256.\<close>

definition is_space :: "char \<Rightarrow> bool" where
  "is_space c = (of_char c \<in> {9, 10, 11, 12, 13, 32, 160 :: nat})"

definition is_digit :: "char \<Rightarrow> bool" where
  "is_digit c = (48 \<le> (of_char c :: nat) \<and> (of_char c :: nat) \<le> 57)"

definition digitChar :: "nat \<Rightarrow> char" where
  "digitChar d = ''0123456789abcdefghijklmnopqrstuvwxyz'' ! d"

text \<open>\<^verbatim>\<open>String(n)\<close> of a natural number, and its hexadecimal digits.\<close>

fun decimal :: "nat \<Rightarrow> string" where
  "decimal n = (if n < 10 then [digitChar n] else decimal (n div 10) @ [digitChar (n mod 10)])"

fun hexadecimal :: "nat \<Rightarrow> string" where
  "hexadecimal n = (if n < 16 then [digitChar n] else hexadecimal (n div 16) @ [digitChar (n mod 16)])"

declare decimal.simps [simp del] hexadecimal.simps [simp del]

text \<open>The value of a string of decimal digits.\<close>

definition digitsValue :: "string \<Rightarrow> nat" where
  "digitsValue ds = foldl (\<lambda>acc c. 10 * acc + (of_char c - 48)) 0 ds"

text \<open>
  \<^verbatim>\<open>parseInt(s, 10)\<close>: leading white space, a sign, then the longest run of
  digits; \<open>None\<close> is NaN.
\<close>

definition parseInt :: "string \<Rightarrow> int option" where
  "parseInt s =
     (let s1 = dropWhile is_space s;
          neg = (s1 \<noteq> [] \<and> hd s1 = CHR ''-'');
          s2 = (if s1 \<noteq> [] \<and> (hd s1 = CHR ''-'' \<or> hd s1 = CHR ''+'') then tl s1 else s1);
          ds = takeWhile is_digit s2
      in if ds = [] then None
         else Some (if neg then - int (digitsValue ds) else int (digitsValue ds)))"

text \<open>
  A property key that is an array index: the canonical decimal form of a
  natural number (\<^verbatim>\<open>"0"\<close>, \<^verbatim>\<open>"12"\<close>, not \<^verbatim>\<open>"00"\<close>, \<^verbatim>\<open>" 1"\<close> or \<^verbatim>\<open>"-0"\<close>).
\<close>

definition arrayIndex :: "string \<Rightarrow> nat option" where
  "arrayIndex s =
     (if s \<noteq> [] \<and> list_all is_digit s \<and> (s = ''0'' \<or> hd s \<noteq> CHR ''0'')
      then Some (digitsValue s) else None)"

section \<open>The stored documents\<close>

text \<open>
  The Mongoose models: campaign and email (delivery) in
  src/models/campaign.model.js, event and template in unnamed/part_001; the
  user by the fields that the services read. Identifiers are the strings of
  their ObjectIds; dates are milliseconds. The fields of each record carry a
  prefix, since several models share field names. \<open>c_defaultVariables\<close>
  holds the properties that the spread \<^verbatim>\<open>...campaign.defaultVariables\<close> copies
  from the Mongoose map (the enumerable properties of the map object itself,
  not the entries of the map), in their order.
\<close>

datatype status =
  Scheduled | Sending | Sent | Delivered | Opened | Clicked
  | Bounced | Rejected | Failed | Complained | Unsubscribed

datatype campaign_status = Draft | Active | Paused | Completed | Archived

datatype triggered_status = TriggeredScheduled | TriggeredSent | TriggeredFailed

record link =
  original :: string
  tracking :: string
  clicks :: nat
  lastClickedAt :: "nat option"

record email =
  e_id :: string
  e_userId :: string
  e_to :: string
  e_from :: string
  e_subject :: string
  e_body :: string
  e_isHtml :: bool
  e_templateId :: string
  e_campaignId :: string
  e_eventId :: string
  e_status :: status
  e_scheduledFor :: nat
  e_sentAt :: "nat option"
  e_deliveredAt :: "nat option"
  e_openedAt :: "nat option"
  e_clickedAt :: "nat option"
  e_variables :: "(string \<times> jsval) list"
  e_messageId :: "string option"
  e_trackingId :: string
  e_links :: "link list"
  e_errorMessage :: "string option"

record analytics =
  a_sent :: nat
  a_opened :: nat
  a_clicked :: nat
  a_bounced :: nat
  a_unsubscribed :: nat
  a_complained :: nat

record campaign =
  c_id :: string
  c_name :: string
  c_templateId :: string
  c_triggerEvent :: string
  c_delay :: nat
  c_conditions :: "(string \<times> jsval) list"
  c_audience :: "string list"
  c_excludedAudience :: "string list"
  c_startDate :: nat
  c_endDate :: "nat option"
  c_status :: campaign_status
  c_analytics :: analytics
  c_defaultVariables :: "(string \<times> jsval) list"

record triggered =
  tc_campaignId :: string
  tc_processedAt :: nat
  tc_status :: triggered_status
  tc_scheduledFor :: nat

record event =
  ev_id :: string
  ev_userId :: string
  ev_eventType :: string
  ev_timestamp :: nat
  ev_source :: string
  ev_metadata :: jsval
  ev_processed :: bool
  ev_triggeredCampaigns :: "triggered list"

record template =
  t_id :: string
  t_subject :: string
  t_body :: string
  t_isHtml :: bool

record user =
  u_id :: string
  u_name :: string
  u_email :: string
  u_attributes :: jsval

text \<open>
  The database, and what the process has done to the outside: \<open>outbox\<close> lists
  the deliveries handed to the mail transport with success, \<open>eventUpdates\<close>
  the events on which \<^verbatim>\<open>Event.findByIdAndUpdate(id, { processed: true })\<close> was
  issued. \<open>nextObjectId\<close> numbers the ObjectIds still to be generated.
\<close>

record store =
  campaigns :: "campaign list"
  events :: "event list"
  emails :: "email list"
  templates :: "template list"
  users :: "user list"
  nextObjectId :: nat
  outbox :: "string list"
  eventUpdates :: "string list"

text \<open>
  \<^verbatim>\<open>doc.save()\<close> of a loaded document writes the paths modified in memory:
  the modification, a function on documents, is applied to the stored document
  of the same id.
\<close>

definition saveEmail :: "string \<Rightarrow> (email \<Rightarrow> email) \<Rightarrow> store \<Rightarrow> store" where
  "saveEmail i changes st = st\<lparr>emails := map (\<lambda>e. if e_id e = i then changes e else e) (emails st)\<rparr>"

text \<open>\<^verbatim>\<open>Campaign.findByIdAndUpdate(id, { $inc: { 'analytics.<field>': 1 } })\<close>\<close>

definition incAnalytics :: "(analytics \<Rightarrow> analytics) \<Rightarrow> string \<Rightarrow> store \<Rightarrow> store" where
  "incAnalytics inc i st =
     st\<lparr>campaigns := map (\<lambda>c. if c_id c = i then c\<lparr>c_analytics := inc (c_analytics c)\<rparr> else c) (campaigns st)\<rparr>"

definition incSent :: "analytics \<Rightarrow> analytics" where
  "incSent a = a\<lparr>a_sent := a_sent a + 1\<rparr>"

definition incOpened :: "analytics \<Rightarrow> analytics" where
  "incOpened a = a\<lparr>a_opened := a_opened a + 1\<rparr>"

definition incClicked :: "analytics \<Rightarrow> analytics" where
  "incClicked a = a\<lparr>a_clicked := a_clicked a + 1\<rparr>"

definition incBounced :: "analytics \<Rightarrow> analytics" where
  "incBounced a = a\<lparr>a_bounced := a_bounced a + 1\<rparr>"

text \<open>\<^verbatim>\<open>Email.findOne({ trackingId })\<close>\<close>

definition findOneByTrackingId :: "store \<Rightarrow> string \<Rightarrow> email option" where
  "findOneByTrackingId st tid = find (\<lambda>e. e_trackingId e = tid) (emails st)"

section \<open>Delivery status and clicks (src/models/campaign.model.js, emailSchema.methods)\<close>

text \<open>
  \<^verbatim>\<open>emailSchema.methods.updateStatus(status, additionalData)\<close>: the
  modification that the method makes before it saves.
\<close>

definition updateStatus :: "nat \<Rightarrow> status \<Rightarrow> (email \<Rightarrow> email) \<Rightarrow> email \<Rightarrow> email" where
  "updateStatus now s additionalData doc =
     additionalData
       (case s of
          Sent \<Rightarrow> doc\<lparr>e_status := s, e_sentAt := Some now\<rparr>
        | Delivered \<Rightarrow> doc\<lparr>e_status := s, e_deliveredAt := Some now\<rparr>
        | Opened \<Rightarrow> doc\<lparr>e_status := s, e_openedAt := Some now\<rparr>
        | Clicked \<Rightarrow> doc\<lparr>e_status := s, e_clickedAt := Some now\<rparr>
        | _ \<Rightarrow> doc\<lparr>e_status := s\<rparr>)"

text \<open>
  \<^verbatim>\<open>this.links && this.links[linkIndex]\<close> for the number that \<^verbatim>\<open>parseInt\<close>
  gave (NaN, a negative number and a number past the end read undefined).
\<close>

definition linkAt :: "email \<Rightarrow> int option \<Rightarrow> nat option" where
  "linkAt doc linkIndex =
     (case linkIndex of
        None \<Rightarrow> None
      | Some n \<Rightarrow> if 0 \<le> n \<and> nat n < length (e_links doc) then Some (nat n) else None)"

text \<open>
  \<^verbatim>\<open>emailSchema.methods.trackClick(linkIndex)\<close>: the modification made and
  saved. The click count written is the one in memory plus one.
\<close>

definition trackClick :: "nat \<Rightarrow> email \<Rightarrow> int option \<Rightarrow> email \<Rightarrow> email" where
  "trackClick now doc linkIndex =
     (case linkAt doc linkIndex of
        Some i \<Rightarrow>
          (\<lambda>e. updateStatus now Clicked id
             (e\<lparr>e_links := (e_links e)[i := (e_links e ! i)
                   \<lparr>clicks := clicks (e_links doc ! i) + 1, lastClickedAt := Some now\<rparr>]\<rparr>))
      | None \<Rightarrow> id)"

section \<open>Tracking collector (src/server.js, trackEmailOpen and trackEmailClick of the campaign service)\<close>

text \<open>\<^verbatim>\<open>trackEmailOpen(trackingId)\<close>: the email returned (null when none is found) and the store.\<close>

definition trackEmailOpen :: "nat \<Rightarrow> store \<Rightarrow> string \<Rightarrow> email option \<times> store" where
  "trackEmailOpen now st trackingId =
     (case findOneByTrackingId st trackingId of
        None \<Rightarrow> (None, st)
      | Some email \<Rightarrow>
          if e_status email \<noteq> Opened then
            (let changes = updateStatus now Opened id;
                 st1 = saveEmail (e_id email) changes st;
                 st2 = incAnalytics incOpened (e_campaignId email) st1
             in (Some (changes email), st2))
          else (Some email, st))"

record click_result =
  url :: "string option"
  clicked_email :: "email option"

text \<open>
  \<^verbatim>\<open>email.links && email.links[linkIndex] ? email.links[linkIndex].original : '/'\<close>
  with the route parameter itself, a string, as the key: an element of the array
  is read only when the string is an array index. The named properties of the
  array object are left out.
\<close>

definition originalUrl :: "email \<Rightarrow> string \<Rightarrow> string" where
  "originalUrl doc linkIndex =
     (case arrayIndex linkIndex of
        Some i \<Rightarrow> if i < length (e_links doc) then original (e_links doc ! i) else ''/''
      | None \<Rightarrow> ''/'')"

text \<open>
  \<^verbatim>\<open>trackEmailClick(trackingId, linkIndex)\<close>. \<^verbatim>\<open>email.trackClick\<close> has set the
  status of the document in memory when \<^verbatim>\<open>email.status !== 'clicked'\<close> is
  evaluated.
\<close>

definition trackEmailClick :: "nat \<Rightarrow> store \<Rightarrow> string \<Rightarrow> string \<Rightarrow> click_result \<times> store" where
  "trackEmailClick now st trackingId linkIndex =
     (case findOneByTrackingId st trackingId of
        None \<Rightarrow> (\<lparr>url = None, clicked_email = None\<rparr>, st)
      | Some email0 \<Rightarrow>
          (let changes = trackClick now email0 (parseInt linkIndex);
               email = changes email0;
               st1 = saveEmail (e_id email0) changes st;
               st2 = (if e_status email \<noteq> Clicked
                      then incAnalytics incClicked (e_campaignId email) st1 else st1)
           in (\<lparr>url = Some (originalUrl email linkIndex), clicked_email = Some email\<rparr>, st2)))"

section \<open>Tracking endpoints (src/controllers/template.controller.js, the tracking controller)\<close>

datatype response =
    Image nat "(string \<times> string) list" "nat list"
  | Redirect string
  | ErrorResponse nat string

text \<open>\<^verbatim>\<open>Buffer.from('R0lGODlhAQABAIAAAAAAAP///yH5BAEAAAAALAAAAAABAAEAAAIBRAA7', 'base64')\<close>\<close>

definition transparentGif :: "nat list" where
  "transparentGif =
     [71, 73, 70, 56, 57, 97, 1, 0, 1, 0, 128, 0, 0, 0, 0, 0, 255, 255, 255, 33, 249, 4, 1, 0,
      0, 0, 0, 44, 0, 0, 0, 0, 1, 0, 1, 0, 0, 2, 1, 68, 0, 59]"

text \<open>
  Where the \<^verbatim>\<open>try\<close> block of the open endpoint stands when something in it
  raises: before the background update is dispatched, or after.
\<close>

datatype try_outcome = Completed | RaisedBeforeDispatch | RaisedAfterDispatch

text \<open>
  \<^verbatim>\<open>trackEmailOpen(req, res)\<close>. The service is the parameter \<open>service\<close>; it
  runs in a \<^verbatim>\<open>setTimeout\<close> callback that catches and logs what it raises.
\<close>

definition trackEmailOpenEndpoint ::
  "try_outcome \<Rightarrow> ('s \<Rightarrow> string \<Rightarrow> (error + email option) \<times> 's) \<Rightarrow> 's \<Rightarrow> string \<Rightarrow> response \<times> 's" where
  "trackEmailOpenEndpoint outcome service st trackingId =
     (case outcome of
        Completed \<Rightarrow>
          (Image 200
             [(''Content-Type'', ''image/gif''),
              (''Content-Length'', decimal (length transparentGif)),
              (''Cache-Control'', ''no-store, no-cache, must-revalidate, max-age=0''),
              (''Pragma'', ''no-cache''),
              (''Expires'', ''Mon, 01 Jan 1990 00:00:00 GMT'')]
             transparentGif,
           snd (service st trackingId))
      | RaisedBeforeDispatch \<Rightarrow>
          (Image 200
             [(''Content-Type'', ''image/gif''),
              (''Content-Length'', decimal (length transparentGif))]
             transparentGif,
           st)
      | RaisedAfterDispatch \<Rightarrow>
          (Image 200
             [(''Content-Type'', ''image/gif''),
              (''Content-Length'', decimal (length transparentGif))]
             transparentGif,
           snd (service st trackingId)))"

text \<open>
  \<^verbatim>\<open>trackEmailClick(req, res)\<close>: \<open>Inl\<close> is what the awaited service raised,
  \<open>Inr None\<close> a falsy result.
\<close>

definition trackEmailClickEndpoint ::
  "('s \<Rightarrow> string \<Rightarrow> string \<Rightarrow> (error + click_result option) \<times> 's) \<Rightarrow> 's \<Rightarrow> string \<Rightarrow> string \<Rightarrow> response \<times> 's" where
  "trackEmailClickEndpoint service st trackingId linkIndex =
     (case service st trackingId linkIndex of
        (Inl e, st1) \<Rightarrow> (Redirect ''/'', st1)
      | (Inr None, st1) \<Rightarrow> (Redirect ''/'', st1)
      | (Inr (Some result), st1) \<Rightarrow>
          (case url result of
             None \<Rightarrow> (Redirect ''/'', st1)
           | Some u \<Rightarrow> if u = [] then (Redirect ''/'', st1) else (Redirect u, st1)))"

text \<open>The service of this repository behind the two endpoints.\<close>

definition openService :: "nat \<Rightarrow> store \<Rightarrow> string \<Rightarrow> (error + email option) \<times> store" where
  "openService now st trackingId = (Inr (fst (trackEmailOpen now st trackingId)), snd (trackEmailOpen now st trackingId))"

definition clickService :: "nat \<Rightarrow> store \<Rightarrow> string \<Rightarrow> string \<Rightarrow> (error + click_result option) \<times> store" where
  "clickService now st trackingId linkIndex =
     (Inr (Some (fst (trackEmailClick now st trackingId linkIndex))),
      snd (trackEmailClick now st trackingId linkIndex))"

section \<open>Tracking instrumentor (src/server.js, addTracking of the email service)\<close>

text \<open>
  The characters that the dot of a regular expression does not match, among
  the code units below 256.
\<close>

definition is_line_terminator :: "char \<Rightarrow> bool" where
  "is_line_terminator c = (of_char c \<in> {10, 13 :: nat})"

text \<open>\<^verbatim>\<open>s.startsWith(p)\<close>\<close>

definition startsWith :: "string \<Rightarrow> string \<Rightarrow> bool" where
  "startsWith s p = (take (length p) s = p)"

text \<open>
  The link pattern is \<^verbatim>\<open>/<a\s+(?:[^>]*?\s+)?href=(["'])(.*?)\1/gi\<close>; the
  functions below follow the backtracking matcher on it. A match is returned as
  the text of group 2 and the text that follows the match.

  \<open>quoted q\<close> is \<^verbatim>\<open>(.*?)\1\<close> after the opening quote \<open>q\<close>: the text up
  to the next \<open>q\<close>, with no line terminator before it.
\<close>

fun quoted :: "char \<Rightarrow> string \<Rightarrow> (string \<times> string) option" where
  "quoted q [] = None"
| "quoted q (c # cs) =
     (if c = q then Some ([], cs)
      else if is_line_terminator c then None
      else (case quoted q cs of None \<Rightarrow> None | Some (u, rest) \<Rightarrow> Some (c # u, rest)))"

text \<open>\<^verbatim>\<open>href=(["'])(.*?)\1\<close> at the head of the text, letters in either case.\<close>

definition hrefHere :: "string \<Rightarrow> (string \<times> string) option" where
  "hrefHere s =
     (case s of
        h # r # e # f # eq # q # cs \<Rightarrow>
          if (h = CHR ''h'' \<or> h = CHR ''H'') \<and> (r = CHR ''r'' \<or> r = CHR ''R'')
             \<and> (e = CHR ''e'' \<or> e = CHR ''E'') \<and> (f = CHR ''f'' \<or> f = CHR ''F'')
             \<and> eq = CHR ''='' \<and> (q = CHR 0x22 \<or> q = CHR 0x27)
          then quoted q cs else None
      | _ \<Rightarrow> None)"

text \<open>
  The optional group \<^verbatim>\<open>(?:[^>]*?\s+)?\<close> followed by the rest of the pattern.
  The lazy \<^verbatim>\<open>[^>]*?\<close> grows by one character at a time and \<^verbatim>\<open>\s+\<close> must
  end where \<^verbatim>\<open>href\<close> starts, so the candidates are the positions that follow a
  white space character, from left to right, up to the first closing angle
  bracket.
\<close>

fun laterHref :: "string \<Rightarrow> (string \<times> string) option" where
  "laterHref [] = None"
| "laterHref (c # cs) =
     (if c = CHR ''>'' then None
      else if is_space c then (case hrefHere cs of Some m \<Rightarrow> Some m | None \<Rightarrow> laterHref cs)
      else laterHref cs)"

text \<open>
  The pattern at the head of the text. The greedy \<^verbatim>\<open>\s+\<close> after \<^verbatim>\<open><a\<close>
  takes the whole run of white space; the group is tried first, and
  \<^verbatim>\<open>href\<close> right after the run only when no later position matches. A
  shorter \<^verbatim>\<open>\s+\<close> reaches no other position.
\<close>

definition matchHere :: "string \<Rightarrow> (string \<times> string) option" where
  "matchHere s =
     (case s of
        lt # a # sp # cs \<Rightarrow>
          if lt = CHR ''<'' \<and> (a = CHR ''a'' \<or> a = CHR ''A'') \<and> is_space sp
          then (case laterHref (dropWhile is_space cs) of
                  Some m \<Rightarrow> Some m
                | None \<Rightarrow> hrefHere (dropWhile is_space cs))
          else None
      | _ \<Rightarrow> None)"

text \<open>
  \<^verbatim>\<open>while ((match = linkRegex.exec(html)) !== null)\<close>: the values of
  \<^verbatim>\<open>match[2]\<close> in the order of the matches. Each search starts where the
  match before it ended.
\<close>

function execAll :: "string \<Rightarrow> string list" where
  "execAll s =
     (if s = [] then []
      else (case matchHere s of
              Some (u, rest) \<Rightarrow> u # execAll rest
            | None \<Rightarrow> execAll (tl s)))"
  by pat_completeness auto
termination
proof (relation "measure length")
  show "wf (measure length)" by simp
next
  fix s :: string
  assume "s \<noteq> []"
  then show "(tl s, s) \<in> measure length" by (cases s) simp_all
next
  fix s :: string and m :: "string \<times> string" and u rest :: string
  assume m: "matchHere s = Some m" and p: "(u, rest) = m"
  have q: "length r < length cs" if "quoted c cs = Some (v, r)" for c cs v r
    using that by (induction cs arbitrary: v) (auto split: if_splits option.splits)
  have h: "length r < length cs" if "hrefHere cs = Some (v, r)" for cs v r
    using that q by (fastforce simp: hrefHere_def split: list.splits if_splits)
  have l: "length r < length cs" if "laterHref cs = Some (v, r)" for cs v r
    using that
  proof (induction cs)
    case Nil
    then show ?case by simp
  next
    case (Cons c cs)
    then show ?case
      by (auto split: if_splits option.splits dest: h less_SucI)
  qed
  have d: "length (dropWhile is_space cs) \<le> length cs" for cs
    by (rule length_dropWhile_le)
  from m p have "length rest < length s"
    by (auto simp: matchHere_def split: list.splits if_splits option.splits
        dest!: h l intro: less_le_trans [OF _ le_trans [OF d]])
  then show "(rest, s) \<in> measure length" by simp
qed

declare execAll.simps [simp del]

text \<open>The first occurrence of a pattern text: what stands before it and after it.\<close>

fun splitAt :: "string \<Rightarrow> string \<Rightarrow> (string \<times> string) option" where
  "splitAt pat [] = (if pat = [] then Some ([], []) else None)"
| "splitAt pat (c # cs) =
     (if take (length pat) (c # cs) = pat then Some ([], drop (length pat) (c # cs))
      else (case splitAt pat cs of None \<Rightarrow> None | Some (pre, post) \<Rightarrow> Some (c # pre, post)))"

text \<open>
  The replacement text of \<^verbatim>\<open>String.prototype.replace\<close> with a pattern that is a
  string: \<^verbatim>\<open>$$\<close>, \<^verbatim>\<open>$&\<close>, \<^verbatim>\<open>$`\<close> and \<^verbatim>\<open>$'\<close> are expanded; there are no
  groups, so any other dollar sign stands for itself.
\<close>

fun getSubstitution :: "string \<Rightarrow> string \<Rightarrow> string \<Rightarrow> string \<Rightarrow> string" where
  "getSubstitution matched pre post [] = []"
| "getSubstitution matched pre post [c] = [c]"
| "getSubstitution matched pre post (c # d # r) =
     (if c = CHR ''$'' \<and> d = CHR ''$'' then CHR ''$'' # getSubstitution matched pre post r
      else if c = CHR ''$'' \<and> d = CHR ''&'' then matched @ getSubstitution matched pre post r
      else if c = CHR ''$'' \<and> d = CHR 0x60 then pre @ getSubstitution matched pre post r
      else if c = CHR ''$'' \<and> d = CHR 0x27 then post @ getSubstitution matched pre post r
      else c # getSubstitution matched pre post (d # r))"

text \<open>\<^verbatim>\<open>s.replace(pat, replacement)\<close> with two strings: the first occurrence only.\<close>

definition jsReplace :: "string \<Rightarrow> string \<Rightarrow> string \<Rightarrow> string" where
  "jsReplace s pat replacement =
     (case splitAt pat s of
        None \<Rightarrow> s
      | Some (pre, post) \<Rightarrow> pre @ getSubstitution pat pre post replacement @ post)"

definition trackingPixel :: "string \<Rightarrow> string \<Rightarrow> string" where
  "trackingPixel trackingBaseUrl trackingId =
     ''<img src=\"'' @ trackingBaseUrl @ ''/track/open/'' @ trackingId
       @ ''\" width=\"1\" height=\"1\" alt=\"\" style=\"display:none;\" />''"

definition clickUrl :: "string \<Rightarrow> string \<Rightarrow> nat \<Rightarrow> string" where
  "clickUrl trackingBaseUrl trackingId index =
     trackingBaseUrl @ ''/track/click/'' @ trackingId @ ''/'' @ decimal index"

definition qualifies :: "string \<Rightarrow> bool" where
  "qualifies href =
     (href \<noteq> [] \<and> \<not> startsWith href ''#'' \<and> \<not> startsWith href ''mailto:'')"

text \<open>
  The body of the loop over the matches. An entry of the registry gets its
  \<open>clicks\<close> of 0 from the schema default.
\<close>

fun trackLinks :: "string \<Rightarrow> string \<Rightarrow> string list \<Rightarrow> nat \<Rightarrow> string \<times> link list \<Rightarrow> string \<times> link list" where
  "trackLinks base tid [] index acc = acc"
| "trackLinks base tid (href # hrefs) index (trackedHtml, links) =
     (if qualifies href then
        trackLinks base tid hrefs (Suc index)
          (jsReplace trackedHtml (''href=\"'' @ href @ ''\"'')
             (''href=\"'' @ clickUrl base tid index @ ''\"''),
           links @ [\<lparr>original = href, tracking = clickUrl base tid index,
                      clicks = 0, lastClickedAt = None\<rparr>])
      else trackLinks base tid hrefs index (trackedHtml, links))"

definition addTracking :: "string \<Rightarrow> string \<Rightarrow> string \<Rightarrow> string \<times> link list" where
  "addTracking html trackingId trackingBaseUrl =
     trackLinks trackingBaseUrl trackingId (execAll html) 0
       (html @ trackingPixel trackingBaseUrl trackingId, [])"


section \<open>Composer (src/server.js, scheduleEmail and renderTemplate)\<close>

text \<open>The environment variables read by the composer.\<close>

record env =
  EMAIL_FROM_NAME :: "string option"
  EMAIL_FROM :: "string option"
  API_BASE_URL :: "string option"

definition envText :: "string option \<Rightarrow> string" where
  "envText v = (case v of None \<Rightarrow> ''undefined'' | Some s \<Rightarrow> s)"

definition apiBaseUrl :: "env \<Rightarrow> string" where
  "apiBaseUrl e =
     (case API_BASE_URL e of
        None \<Rightarrow> ''http://localhost:3000''
      | Some s \<Rightarrow> if s = [] then ''http://localhost:3000'' else s)"

text \<open>The \<^verbatim>\<open>trim: true\<close> setter of a schema string.\<close>

definition trim :: "string \<Rightarrow> string" where
  "trim s = rev (dropWhile is_space (rev (dropWhile is_space s)))"

text \<open>
  \<^verbatim>\<open>String(v)\<close>, as \<^verbatim>\<open>replace\<close> applies it to a replacement value. Every
  object gives the text of a plain object; an array, which gives its elements
  joined by commas, and an object with a \<^verbatim>\<open>toString\<close> of its own are not told
  from it.
\<close>

fun toString :: "jsval \<Rightarrow> string" where
  "toString JUndefined = ''undefined''"
| "toString JNull = ''null''"
| "toString (JBool b) = (if b then ''true'' else ''false'')"
| "toString (JNum n) = (if n < 0 then CHR ''-'' # decimal (nat (- n)) else decimal (nat n))"
| "toString (JStr s) = s"
| "toString (JObj fs) = ''[object Object]''"

text \<open>\<^verbatim>\<open>variables[k] = v\<close> on the entries of an object, in their order.\<close>

fun assign :: "string \<Rightarrow> jsval \<Rightarrow> (string \<times> jsval) list \<Rightarrow> (string \<times> jsval) list" where
  "assign k v [] = [(k, v)]"
| "assign k v (kv # kvs) = (if fst kv = k then (k, v) # kvs else kv # assign k v kvs)"

text \<open>\<^verbatim>\<open>Object.entries(v)\<close>\<close>

fun objectEntries :: "jsval \<Rightarrow> (string \<times> jsval) list" where
  "objectEntries (JObj fs) = fs"
| "objectEntries (JStr s) = map (\<lambda>i. (decimal i, JStr [s ! i])) [0..<length s]"
| "objectEntries v = []"

text \<open>
  The variables of \<open>scheduleEmail\<close>: the spread of the default variables,
  the four fixed fields, the user attributes, the primitive metadata fields.
\<close>

definition buildVariables :: "env \<Rightarrow> campaign \<Rightarrow> event \<Rightarrow> user \<Rightarrow> (string \<times> jsval) list" where
  "buildVariables e campaign event user =
     (let v0 = assign ''unsubscribe_link'' (JStr (apiBaseUrl e @ ''/api/unsubscribe/'' @ u_id user))
                (assign ''company_name''
                   (JStr (case EMAIL_FROM_NAME e of None \<Rightarrow> [] | Some s \<Rightarrow> s))
                   (assign ''user_email'' (JStr (u_email user))
                      (assign ''user_name'' (JStr (u_name user)) (c_defaultVariables campaign))));
          v1 = (if truthy (u_attributes user)
                then foldl (\<lambda>vars kv. assign (''user_'' @ fst kv) (snd kv) vars) v0
                       (objectEntries (u_attributes user))
                else v0)
      in if truthy (ev_metadata event)
         then foldl (\<lambda>vars kv. if typeof_object (snd kv) then vars
                                 else assign (''event_'' @ fst kv) (snd kv) vars) v1
                (objectEntries (ev_metadata event))
         else v1)"

text \<open>
  \<^verbatim>\<open>renderTemplate(template, variables)\<close>. The parameter \<open>replaceAll\<close> is the
  regular expression engine: \<^verbatim>\<open>rendered.replace(new RegExp(source, 'g'), value)\<close>,
  which raises on a source that is no regular expression. The source is built
  from the key as it is.
\<close>

fun renderTemplate ::
  "(string \<Rightarrow> string \<Rightarrow> string \<Rightarrow> error + string) \<Rightarrow> string \<Rightarrow> (string \<times> jsval) list \<Rightarrow> error + string" where
  "renderTemplate replaceAll rendered [] = Inr rendered"
| "renderTemplate replaceAll rendered (kv # kvs) =
     (case replaceAll (''{{'' @ CHR 0x5C # ''s*'' @ fst kv @ CHR 0x5C # ''s*}}'') rendered (toString (snd kv)) of
        Inl e \<Rightarrow> Inl e
      | Inr r \<Rightarrow> renderTemplate replaceAll r kvs)"

text \<open>The string of the \<open>n\<close>-th ObjectId generated: 24 hexadecimal digits.\<close>

definition objectIdString :: "nat \<Rightarrow> string" where
  "objectIdString n = replicate (24 - length (hexadecimal n)) CHR ''0'' @ hexadecimal n"

text \<open>
  The cast of \<^verbatim>\<open>variables\<close> to a Mongoose map of strings, as far as the
  keys go: a key that starts with \<^verbatim>\<open>$\<close> or holds a dot is refused.
\<close>

definition castVariables :: "(string \<times> jsval) list \<Rightarrow> bool" where
  "castVariables variables =
     list_all (\<lambda>kv. \<not> startsWith (fst kv) ''$'' \<and> CHR ''.'' \<notin> set (fst kv)) variables"

text \<open>
  \<^verbatim>\<open>email.save()\<close> of a new document. Validation comes first: the required
  fields, and the cast of the variables. Then the pre-save hook runs,
  \<^verbatim>\<open>if (!this.trackingId) { this.trackingId = mongoose.Types.ObjectId().toString()
  + Date.now().toString(36); }\<close>: on a document without tracking id it calls
  \<^verbatim>\<open>ObjectId\<close> without \<^verbatim>\<open>new\<close>, and under the \<^verbatim>\<open>mongoose ^7.0.4\<close> that
  package.json declares \<^verbatim>\<open>ObjectId\<close> is a class, so the call raises a
  TypeError and nothing is stored. A document that has a tracking id is
  inserted, unless the unique index on the tracking id refuses it.
\<close>

definition insertEmail :: "email \<Rightarrow> store \<Rightarrow> (error + email) \<times> store" where
  "insertEmail doc st =
     (if e_to doc = [] \<or> e_from doc = [] \<or> e_subject doc = [] \<or> e_body doc = []
         \<or> \<not> castVariables (e_variables doc)
      then (Inl ValidationError, st)
      else if e_trackingId doc = [] then (Inl TypeError, st)
      else if e_trackingId doc \<in> set (map e_trackingId (emails st))
      then (Inl DuplicateKey, st)
      else (Inr doc, st\<lparr>emails := emails st @ [doc]\<rparr>))"

text \<open>
  \<^verbatim>\<open>scheduleEmail(campaign, event, user, scheduledTime)\<close>. The tracking id
  built for \<open>addTracking\<close> is not given to the document: the object passed to
  \<^verbatim>\<open>new Email\<close> has no \<^verbatim>\<open>trackingId\<close> field, so \<^verbatim>\<open>email.save()\<close> meets the
  pre-save hook with a document without tracking id. \<^verbatim>\<open>new Email\<close> takes the
  next ObjectId for the \<^verbatim>\<open>_id\<close> of the document.
\<close>

definition scheduleEmail ::
  "(string \<Rightarrow> string \<Rightarrow> string \<Rightarrow> error + string) \<Rightarrow> env \<Rightarrow> nat \<Rightarrow> campaign \<Rightarrow> event \<Rightarrow> user \<Rightarrow> nat
   \<Rightarrow> store \<Rightarrow> (error + email) \<times> store" where
  "scheduleEmail replaceAll e now campaign event user scheduledTime st =
     (case find (\<lambda>t. t_id t = c_templateId campaign) (templates st) of
        None \<Rightarrow> (Inl TemplateNotFound, st)
      | Some template \<Rightarrow>
          (let variables = buildVariables e campaign event user in
           case renderTemplate replaceAll (t_subject template) variables of
             Inl err \<Rightarrow> (Inl err, st)
           | Inr subject \<Rightarrow>
              (case renderTemplate replaceAll (t_body template) variables of
                 Inl err \<Rightarrow> (Inl err, st)
               | Inr body \<Rightarrow>
                  (let trackingId = c_id campaign @ ''-'' @ ev_id event @ ''-'' @ decimal now;
                       trackingInfo = (if t_isHtml template
                                       then addTracking body trackingId (apiBaseUrl e)
                                       else (body, []));
                       st1 = st\<lparr>nextObjectId := Suc (nextObjectId st)\<rparr>
                   in insertEmail
                        \<lparr>e_id = objectIdString (nextObjectId st),
                         e_userId = u_id user,
                         e_to = trim (u_email user),
                         e_from = trim (envText (EMAIL_FROM_NAME e) @ '' <'' @ envText (EMAIL_FROM e) @ ''>''),
                         e_subject = trim subject,
                         e_body = fst trackingInfo,
                         e_isHtml = t_isHtml template,
                         e_templateId = t_id template,
                         e_campaignId = c_id campaign,
                         e_eventId = ev_id event,
                         e_status = Scheduled,
                         e_scheduledFor = scheduledTime,
                         e_sentAt = None, e_deliveredAt = None, e_openedAt = None, e_clickedAt = None,
                         e_variables = variables,
                         e_messageId = None,
                         e_trackingId = [],
                         e_links = snd trackingInfo,
                         e_errorMessage = None\<rparr>
                        st1))))"

section \<open>Matcher (src/server.js, processEvent)\<close>

text \<open>The virtual \<^verbatim>\<open>isDateActive\<close> and the method \<^verbatim>\<open>shouldSendToUser\<close> of a campaign.\<close>

definition isDateActive :: "nat \<Rightarrow> campaign \<Rightarrow> bool" where
  "isDateActive now c =
     (c_startDate c \<le> now \<and> (case c_endDate c of None \<Rightarrow> True | Some d \<Rightarrow> now \<le> d))"

definition shouldSendToUser :: "campaign \<Rightarrow> string \<Rightarrow> bool" where
  "shouldSendToUser c userId =
     (if c_audience c \<noteq> [] \<and> userId \<notin> set (c_audience c) then False
      else if userId \<in> set (c_excludedAudience c) then False
      else True)"

text \<open>
  The event document as \<open>matchesConditions\<close> reads it, for an event that
  has no session id, address and user agent. ObjectIds and dates are objects
  without fields of their own. The properties that Mongoose adds to a document
  (\<^verbatim>\<open>id\<close>, the timestamps, the version, the methods) are not among the
  fields.
\<close>

definition triggeredValue :: "triggered \<Rightarrow> jsval" where
  "triggeredValue t =
     JObj [(''campaignId'', JObj []), (''processedAt'', JObj []),
           (''status'', JStr (case tc_status t of
                               TriggeredScheduled \<Rightarrow> ''scheduled''
                             | TriggeredSent \<Rightarrow> ''sent''
                             | TriggeredFailed \<Rightarrow> ''failed'')),
           (''scheduledFor'', JObj [])]"

definition arrayValue :: "jsval list \<Rightarrow> jsval" where
  "arrayValue vs =
     JObj (map (\<lambda>i. (decimal i, vs ! i)) [0..<length vs] @ [(''length'', JNum (int (length vs)))])"

definition eventValue :: "event \<Rightarrow> jsval" where
  "eventValue ev =
     JObj [(''_id'', JObj []), (''userId'', JObj []), (''eventType'', JStr (ev_eventType ev)),
           (''timestamp'', JObj []), (''source'', JStr (ev_source ev)),
           (''metadata'', ev_metadata ev), (''processed'', JBool (ev_processed ev)),
           (''triggeredCampaigns'', arrayValue (map triggeredValue (ev_triggeredCampaigns ev)))]"

text \<open>\<^verbatim>\<open>Event.findByIdAndUpdate(event._id, { processed: true })\<close>\<close>

definition markProcessed :: "string \<Rightarrow> store \<Rightarrow> store" where
  "markProcessed i st =
     st\<lparr>events := map (\<lambda>ev. if ev_id ev = i then ev\<lparr>ev_processed := True\<rparr> else ev) (events st),
        eventUpdates := eventUpdates st @ [i]\<rparr>"

text \<open>
  \<^verbatim>\<open>event.addTriggeredCampaign(campaignId, status, scheduledFor)\<close>: the entry is
  pushed on the document in memory, and \<^verbatim>\<open>save\<close> pushes it on the stored one.
\<close>

definition addTriggeredCampaign :: "nat \<Rightarrow> string \<Rightarrow> triggered_status \<Rightarrow> nat \<Rightarrow> event \<Rightarrow> store \<Rightarrow> event \<times> store" where
  "addTriggeredCampaign now campaignId s scheduledFor ev st =
     (let entry = \<lparr>tc_campaignId = campaignId, tc_processedAt = now, tc_status = s,
                   tc_scheduledFor = scheduledFor\<rparr>
      in (ev\<lparr>ev_triggeredCampaigns := ev_triggeredCampaigns ev @ [entry]\<rparr>,
          st\<lparr>events := map (\<lambda>d. if ev_id d = ev_id ev
                                  then d\<lparr>ev_triggeredCampaigns := ev_triggeredCampaigns d @ [entry]\<rparr>
                                  else d) (events st)\<rparr>))"

text \<open>
  What the matcher takes from the JavaScript runtime: the regular expression
  engine, the relational operators and the environment.
\<close>

record runtime =
  rt_replaceAll :: "string \<Rightarrow> string \<Rightarrow> string \<Rightarrow> error + string"
  rt_le :: "jsval \<Rightarrow> jsval \<Rightarrow> bool"
  rt_ge :: "jsval \<Rightarrow> jsval \<Rightarrow> bool"
  rt_env :: env

text \<open>
  The loop of \<open>processEvent\<close> over the candidate campaigns. The first
  component is what \<open>matchesConditions\<close> raised, outside the inner \<^verbatim>\<open>try\<close>;
  what \<open>scheduleEmail\<close> raises is caught and logged, and the loop goes on.
\<close>

fun processCampaigns ::
  "runtime \<Rightarrow> nat \<Rightarrow> user \<Rightarrow> campaign list \<Rightarrow> campaign list \<times> event \<times> store
   \<Rightarrow> error option \<times> campaign list \<times> event \<times> store" where
  "processCampaigns m now user [] acc = (None, acc)"
| "processCampaigns m now user (campaign # cs) (triggeredCampaigns, event, st) =
     (if \<not> isDateActive now campaign then processCampaigns m now user cs (triggeredCampaigns, event, st)
      else if \<not> shouldSendToUser campaign (ev_userId event)
        then processCampaigns m now user cs (triggeredCampaigns, event, st)
      else (case matchesConditions (rt_le m) (rt_ge m) (c_conditions campaign) (eventValue event) of
              Inl err \<Rightarrow> (Some err, triggeredCampaigns, event, st)
            | Inr matched \<Rightarrow>
                if \<not> matched then processCampaigns m now user cs (triggeredCampaigns, event, st)
                else
                  (let scheduledTime = ev_timestamp event + c_delay campaign * 1000;
                       added = addTriggeredCampaign now (c_id campaign) TriggeredScheduled scheduledTime event st;
                       scheduled = scheduleEmail (rt_replaceAll m) (rt_env m) now campaign (fst added) user
                                     scheduledTime (snd added)
                   in processCampaigns m now user cs
                        (triggeredCampaigns @ [campaign], fst added, snd scheduled))))"

definition processEvent :: "runtime \<Rightarrow> nat \<Rightarrow> event \<Rightarrow> store \<Rightarrow> (error + campaign list) \<times> event \<times> store" where
  "processEvent m now event st =
     (let candidates = filter (\<lambda>c. c_triggerEvent c = ev_eventType event \<and> c_status c = Active) (campaigns st)
      in if candidates = [] then (Inr [], event, markProcessed (ev_id event) st)
         else (case find (\<lambda>u. u_id u = ev_userId event) (users st) of
                 None \<Rightarrow> (Inr [], event, markProcessed (ev_id event) st)
               | Some user \<Rightarrow>
                   (case processCampaigns m now user candidates ([], event, st) of
                      (Some err, triggeredCampaigns, event1, st1) \<Rightarrow> (Inl err, event1, st1)
                    | (None, triggeredCampaigns, event1, st1) \<Rightarrow>
                        (Inr triggeredCampaigns, event1, markProcessed (ev_id event) st1))))"

section \<open>Event sweep (src/server.js, processUnprocessedEvents)\<close>

text \<open>\<^verbatim>\<open>.limit(n)\<close> of a query; a limit of 0 is no limit.\<close>

definition limitTo :: "nat \<Rightarrow> 'a list \<Rightarrow> 'a list" where
  "limitTo n xs = (if n = 0 then xs else take n xs)"

definition findUnprocessedEvents :: "nat \<Rightarrow> store \<Rightarrow> event list" where
  "findUnprocessedEvents batchSize st =
     limitTo batchSize (sort_key ev_timestamp (filter (\<lambda>ev. \<not> ev_processed ev) (events st)))"

fun sweepEvents :: "runtime \<Rightarrow> nat \<Rightarrow> event list \<Rightarrow> nat \<times> store \<Rightarrow> nat \<times> store" where
  "sweepEvents m now [] acc = acc"
| "sweepEvents m now (event # evs) (processedCount, st) =
     (case processEvent m now event st of
        (Inr triggeredCampaigns, event1, st1) \<Rightarrow> sweepEvents m now evs (Suc processedCount, st1)
      | (Inl err, event1, st1) \<Rightarrow> sweepEvents m now evs (processedCount, st1))"

definition processUnprocessedEvents :: "runtime \<Rightarrow> nat \<Rightarrow> nat \<Rightarrow> store \<Rightarrow> nat \<times> store" where
  "processUnprocessedEvents m now batchSize st =
     (let evs = findUnprocessedEvents batchSize st
      in if evs = [] then (0, st) else sweepEvents m now evs (0, st))"

text \<open>
  The two ways in which the matcher is driven: the dispatch that follows the
  ingestion of an event (\<^verbatim>\<open>trackEvent\<close> in src/controllers/campaign.controller.js
  calls \<open>processEvent\<close> on the event document it holds, which may be
  older than the stored one), and the sweep of the worker. \<open>afterRuns\<close> is
  the store after a sequence of such runs, one after the other.
\<close>

datatype run = MatcherRun nat event | SweepRun nat nat

fun afterRuns :: "runtime \<Rightarrow> run list \<Rightarrow> store \<Rightarrow> store" where
  "afterRuns m [] st = st"
| "afterRuns m (MatcherRun now event # rs) st =
     afterRuns m rs (snd (snd (processEvent m now event st)))"
| "afterRuns m (SweepRun now batchSize # rs) st =
     afterRuns m rs (snd (processUnprocessedEvents m now batchSize st))"

section \<open>Delivery worker (src/server.js, processScheduledEmails)\<close>

definition findPendingEmails :: "nat \<Rightarrow> nat \<Rightarrow> store \<Rightarrow> email list" where
  "findPendingEmails now limit st =
     limitTo limit (sort_key e_scheduledFor
       (filter (\<lambda>e. e_status e = Scheduled \<and> e_scheduledFor e \<le> now) (emails st)))"

text \<open>\<^verbatim>\<open>error.message\<close>\<close>

definition errorMessage :: "error \<Rightarrow> string" where
  "errorMessage err = (case err of DeliveryError msg \<Rightarrow> msg | _ \<Rightarrow> ''error'')"

text \<open>
  The loop of \<open>processScheduledEmails\<close> over the documents that the query
  returned. \<open>sendEmail\<close> is the mail transport: a message id, or an error.
\<close>

fun sendPending :: "(email \<Rightarrow> error + string) \<Rightarrow> nat \<Rightarrow> email list \<Rightarrow> nat \<times> store \<Rightarrow> nat \<times> store" where
  "sendPending sendEmail now [] acc = acc"
| "sendPending sendEmail now (email # pendingEmails) (sentCount, st) =
     (let st1 = saveEmail (e_id email) (\<lambda>e. e\<lparr>e_status := Sending\<rparr>) st;
          email1 = email\<lparr>e_status := Sending\<rparr>
      in case sendEmail email1 of
           Inr messageId \<Rightarrow>
             (let st2 = saveEmail (e_id email)
                          (updateStatus now Sent (\<lambda>e. e\<lparr>e_sentAt := Some now, e_messageId := Some messageId\<rparr>)) st1;
                  st3 = incAnalytics incSent (e_campaignId email) (st2\<lparr>outbox := outbox st2 @ [e_id email]\<rparr>)
              in sendPending sendEmail now pendingEmails (Suc sentCount, st3))
         | Inl err \<Rightarrow>
             (let st2 = saveEmail (e_id email)
                          (updateStatus now Failed (\<lambda>e. e\<lparr>e_errorMessage := Some (errorMessage err)\<rparr>)) st1;
                  st3 = incAnalytics incBounced (e_campaignId email) st2
              in sendPending sendEmail now pendingEmails (sentCount, st3)))"

definition processScheduledEmails :: "(email \<Rightarrow> error + string) \<Rightarrow> nat \<Rightarrow> nat \<Rightarrow> store \<Rightarrow> nat \<times> store" where
  "processScheduledEmails sendEmail now batchSize st =
     (let pendingEmails = findPendingEmails now batchSize st
      in if pendingEmails = [] then (0, st) else sendPending sendEmail now pendingEmails (0, st))"

section \<open>Example data\<close>

text \<open>A campaign, a sent delivery with two links, and a store that holds them.\<close>

definition analytics0 :: analytics where
  "analytics0 = \<lparr>a_sent = 1, a_opened = 0, a_clicked = 0, a_bounced = 0, a_unsubscribed = 0, a_complained = 0\<rparr>"

definition campaign1 :: campaign where
  "campaign1 = \<lparr>c_id = ''c1'', c_name = ''Welcome'', c_templateId = ''f1'', c_triggerEvent = ''signup'',
     c_delay = 60, c_conditions = [], c_audience = [], c_excludedAudience = [],
     c_startDate = 0, c_endDate = None, c_status = Active, c_analytics = analytics0,
     c_defaultVariables = []\<rparr>"

definition delivery1 :: email where
  "delivery1 = \<lparr>e_id = ''d1'', e_userId = ''a1'', e_to = ''ada@x.test'', e_from = ''Shop <shop@x.test>'',
     e_subject = ''Hello'', e_body = ''<a href=\"http://localhost:3000/track/click/k1/0\">A</a>'',
     e_isHtml = True, e_templateId = ''f1'', e_campaignId = ''c1'', e_eventId = ''e1'',
     e_status = Sent, e_scheduledFor = 1000, e_sentAt = Some 2000, e_deliveredAt = None,
     e_openedAt = None, e_clickedAt = None, e_variables = [], e_messageId = Some ''msg1'',
     e_trackingId = ''k1'',
     e_links = [\<lparr>original = ''https://x.test/a'', tracking = ''http://localhost:3000/track/click/k1/0'',
                  clicks = 0, lastClickedAt = None\<rparr>,
                \<lparr>original = ''https://x.test/b'', tracking = ''http://localhost:3000/track/click/k1/1'',
                  clicks = 0, lastClickedAt = None\<rparr>],
     e_errorMessage = None\<rparr>"

definition trackingStore :: store where
  "trackingStore = \<lparr>campaigns = [campaign1], events = [], emails = [delivery1], templates = [],
     users = [], nextObjectId = 0, outbox = [''d1''], eventUpdates = []\<rparr>"


definition clickedStore :: store where
  "clickedStore = trackingStore\<lparr>emails := [delivery1\<lparr>e_status := Clicked, e_clickedAt := Some 5000\<rparr>]\<rparr>"

text \<open>
  The regular expression engine on a text that holds no placeholder: nothing
  is replaced. The templates of the examples hold none.
\<close>

definition plainText :: "string \<Rightarrow> string \<Rightarrow> string \<Rightarrow> error + string" where
  "plainText source text replacement = Inr text"

text \<open>The relational operators on two numbers.\<close>

definition numberLe :: "jsval \<Rightarrow> jsval \<Rightarrow> bool" where
  "numberLe a b = (case (a, b) of (JNum x, JNum y) \<Rightarrow> x \<le> y | _ \<Rightarrow> False)"

definition numberGe :: "jsval \<Rightarrow> jsval \<Rightarrow> bool" where
  "numberGe a b = (case (a, b) of (JNum x, JNum y) \<Rightarrow> x \<ge> y | _ \<Rightarrow> False)"

text \<open>
  An HTML template with two anchors to the same URL, a user, an unprocessed
  event of the type that triggers \<open>campaign1\<close>, and a store that holds them.
\<close>

definition env1 :: env where
  "env1 = \<lparr>EMAIL_FROM_NAME = Some ''Shop'', EMAIL_FROM = Some ''shop@x.test'', API_BASE_URL = None\<rparr>"

definition runtime1 :: runtime where
  "runtime1 = \<lparr>rt_replaceAll = plainText, rt_le = numberLe, rt_ge = numberGe, rt_env = env1\<rparr>"

definition template1 :: template where
  "template1 = \<lparr>t_id = ''f1'', t_subject = ''Welcome'',
     t_body = ''<a href=\"https://x.test\">A</a><a href=\"https://x.test\">B</a>'', t_isHtml = True\<rparr>"

definition user1 :: user where
  "user1 = \<lparr>u_id = ''a1'', u_name = ''Ada'', u_email = ''ada@x.test'', u_attributes = JObj []\<rparr>"

definition event1 :: event where
  "event1 = \<lparr>ev_id = ''e1'', ev_userId = ''a1'', ev_eventType = ''signup'', ev_timestamp = 1000,
     ev_source = ''api'', ev_metadata = JObj [], ev_processed = False, ev_triggeredCampaigns = []\<rparr>"

definition matcherStore :: store where
  "matcherStore = \<lparr>campaigns = [campaign1], events = [event1], emails = [], templates = [template1],
     users = [user1], nextObjectId = 0, outbox = [], eventUpdates = []\<rparr>"



text \<open>A mail transport that accepts every message, and a store with one due delivery.\<close>

definition acceptAll :: "email \<Rightarrow> error + string" where
  "acceptAll mail = Inr (''msg-'' @ e_id mail)"

definition workerStore :: store where
  "workerStore = trackingStore\<lparr>emails := [delivery1\<lparr>e_status := Scheduled, e_sentAt := None, e_messageId := None\<rparr>],
     outbox := []\<rparr>"


text \<open>No stored delivery whose id is in \<open>S\<close> is in status \<open>Scheduled\<close>.\<close>

definition claimed :: "string set \<Rightarrow> store \<Rightarrow> bool" where
  "claimed S st = (\<forall>e \<in> set (emails st). e_id e \<in> S \<longrightarrow> e_status e \<noteq> Scheduled)"

text \<open>Two stores that hold the same campaigns, users and events, and the same log of event updates.\<close>

definition sameEvents :: "store \<Rightarrow> store \<Rightarrow> bool" where
  "sameEvents st st2 =
     (campaigns st2 = campaigns st \<and> users st2 = users st \<and> events st2 = events st
      \<and> eventUpdates st2 = eventUpdates st)"






text \<open>
  The entries of the event, in memory and stored, are those of the campaigns
  triggered so far, in their order.
\<close>

definition entriesMatch :: "campaign list \<Rightarrow> event \<Rightarrow> store \<Rightarrow> bool" where
  "entriesMatch trig ev st =
     (map tc_campaignId (ev_triggeredCampaigns ev) = map c_id trig
      \<and> (\<forall>d \<in> set (events st). ev_id d = ev_id ev \<longrightarrow>
             map tc_campaignId (ev_triggeredCampaigns d) = map c_id trig))"

text \<open>At most one stored delivery for each pair of event and campaign.\<close>

definition atMostOneDelivery :: "store \<Rightarrow> bool" where
  "atMostOneDelivery st = distinct (map (\<lambda>e. (e_eventId e, e_campaignId e)) (emails st))"

section \<open>Properties of condition matching\<close>

lemma falsyValue_not_truthy: "falsyValue v \<Longrightarrow> \<not> truthy v"
  by (auto simp: falsyValue_def)

lemma js_get_falsy: "\<not> truthy v \<Longrightarrow> js_get v k = JUndefined"
  by (cases v) auto

lemma descend_falsy_prefix:
  "i < length parts \<Longrightarrow> \<not> truthy (foldl js_get v (take (Suc i) parts)) \<Longrightarrow> descend v parts = None"
proof (induction parts arbitrary: v i)
  case Nil
  then show ?case by simp
next
  case (Cons p ps)
  show ?case
  proof (cases i)
    case 0
    with Cons.prems show ?thesis by simp
  next
    case (Suc j)
    with Cons.prems have "j < length ps" and "\<not> truthy (foldl js_get (js_get v p) (take (Suc j) ps))"
      by simp_all
    then have "descend (js_get v p) ps = None"
      by (rule Cons.IH)
    then show ?thesis by simp
  qed
qed

lemma checkCondition_error: "checkCondition le ge event e = Inl x \<Longrightarrow> x = TypeError"
  by (auto simp: checkCondition_def Let_def split: option.splits if_splits)

lemma conditionsLoop_False:
  "entry \<in> set entries \<Longrightarrow> checkCondition le ge event entry = Inr False
   \<Longrightarrow> \<forall>e \<in> set entries. checkCondition le ge event e \<noteq> Inl TypeError
   \<Longrightarrow> conditionsLoop le ge event entries = Inr False"
proof (induction entries)
  case Nil
  then show ?case by simp
next
  case (Cons e es)
  show ?case
  proof (cases "checkCondition le ge event e")
    case (Inl x)
    with checkCondition_error [OF Inl] Cons.prems show ?thesis by auto
  next
    case (Inr ok)
    show ?thesis
    proof (cases ok)
      case False
      with Inr show ?thesis by simp
    next
      case True
      with Inr Cons.prems have "entry \<in> set es" by auto
      with Cons.IH Cons.prems have "conditionsLoop le ge event es = Inr False" by simp
      with Inr True show ?thesis by simp
    qed
  qed
qed

lemma descend_Some:
  "descend v parts = Some x \<Longrightarrow> x = foldl js_get v parts \<and> (parts \<noteq> [] \<longrightarrow> truthy x)"
proof (induction parts arbitrary: v)
  case Nil
  then show ?case by simp
next
  case (Cons p ps)
  from Cons.prems have t: "truthy (js_get v p)" and d: "descend (js_get v p) ps = Some x"
    by (auto split: if_splits)
  from Cons.IH [OF d] have "x = foldl js_get (js_get v p) ps" and "ps \<noteq> [] \<longrightarrow> truthy x"
    by blast+
  with t show ?case by (cases ps) auto
qed

lemma split_dot_nonempty: "split_dot key \<noteq> []"
  by (induction key) (auto split: list.splits)

text \<open>
  Whatever the condition value is, an entry whose key path reads undefined in
  the event makes the loop return false, and nothing is raised: the descent
  returns before the operators are looked at.
\<close>

lemma unresolved_path_is_no_match:
  "pathValue event (split_dot key) = JUndefined \<Longrightarrow> checkCondition le ge event (key, v) = Inr False"
proof -
  assume u: "pathValue event (split_dot key) = JUndefined"
  have "descend event (split_dot key) = None"
  proof (cases "descend event (split_dot key)")
    case None
    then show ?thesis .
  next
    case (Some x)
    from descend_Some [OF Some] split_dot_nonempty [of key] u show ?thesis
      by (auto simp: pathValue_def)
  qed
  then show ?thesis by (simp add: checkCondition_def)
qed

text \<open>
  C5 (the code departs from the claim). The condition
  \<^verbatim>\<open>{"metadata.coupon": {"exists": false}}\<close> on an event whose metadata has no
  \<^verbatim>\<open>coupon\<close> field: the claim says it matches; \<open>matchesConditions\<close> returns
  false, since the descent returns false at the missing part before
  \<^verbatim>\<open>value.exists\<close> is compared.
\<close>

theorem exists_false_on_missing_path_is_no_match:
  "matchesConditions le ge
     [(''metadata.coupon'', JObj [(''exists'', JBool False)])]
     (JObj [(''eventType'', JStr ''purchase''), (''metadata'', JObj [(''price'', JNum 150)])])
   = Inr False"
  by (simp add: matchesConditions_def checkCondition_def)

text \<open>
  C10. When a prefix of the key path of a condition (the whole path, or an
  intermediate part of it) reads a falsy value in the event (0, the empty
  string or false), the evaluation of that condition returns false, whatever
  the condition value is: a literal, the same falsy value, or an operator
  object with \<^verbatim>\<open>exists\<close>, \<^verbatim>\<open>equals\<close>, \<^verbatim>\<open>gt\<close> or \<^verbatim>\<open>lt\<close>. So does
  \<open>matchesConditions\<close> on the condition alone, and on any condition set that
  holds it and raises on no entry.
\<close>

theorem falsy_path_is_no_match:
  assumes "i < length (split_dot key)"
    and "falsyValue (pathValue event (take (Suc i) (split_dot key)))"
  shows "checkCondition le ge event (key, v) = Inr False
    \<and> matchesConditions le ge [(key, v)] event = Inr False
    \<and> ((key, v) \<in> set conditions
         \<and> (\<forall>e \<in> set conditions. checkCondition le ge event e \<noteq> Inl TypeError)
        \<longrightarrow> matchesConditions le ge conditions event = Inr False)"
proof -
  from assms have "descend event (split_dot key) = None"
    by (intro descend_falsy_prefix [of i]) (auto simp: pathValue_def dest: falsyValue_not_truthy)
  then have c: "checkCondition le ge event (key, v) = Inr False"
    by (simp add: checkCondition_def)
  then have one: "matchesConditions le ge [(key, v)] event = Inr False"
    by (simp add: matchesConditions_def)
  have "matchesConditions le ge conditions event = Inr False"
    if "(key, v) \<in> set conditions"
      and "\<forall>e \<in> set conditions. checkCondition le ge event e \<noteq> Inl TypeError"
  proof -
    from that(1) have "conditions \<noteq> []" by auto
    with conditionsLoop_False [OF that(1) c that(2)] show ?thesis
      by (simp add: matchesConditions_def)
  qed
  with c one show ?thesis by blast
qed

theorem falsy_path_is_no_match_witness:
  "checkCondition (\<lambda>a b. False) (\<lambda>a b. False)
      (JObj [(''metadata'', JObj [(''count'', JNum 0)])]) (''metadata.count'', JNum 0) = Inr False
   \<and> matchesConditions (\<lambda>a b. False) (\<lambda>a b. False) [(''metadata.count'', JNum 0)]
      (JObj [(''metadata'', JObj [(''count'', JNum 0)])]) = Inr False
   \<and> matchesConditions (\<lambda>a b. False) (\<lambda>a b. False)
      [(''metadata'', JObj [(''exists'', JBool True)]),
       (''metadata.count'', JObj [(''exists'', JBool True)])]
      (JObj [(''metadata'', JObj [(''count'', JNum 0)])]) = Inr False"
proof -
  let ?ev = "JObj [(''metadata'', JObj [(''count'', JNum 0)])]"
  let ?f = "\<lambda>(a::jsval) (b::jsval). False"
  have i: "Suc 0 < length (split_dot ''metadata.count'')" by simp
  have f: "falsyValue (pathValue ?ev (take (Suc (Suc 0)) (split_dot ''metadata.count'')))"
    by (simp add: falsyValue_def pathValue_def)
  have m1: "(''metadata.count'', JObj [(''exists'', JBool True)])
      \<in> set [(''metadata'', JObj [(''exists'', JBool True)]),
             (''metadata.count'', JObj [(''exists'', JBool True)])]" by simp
  have n1: "\<forall>e \<in> set [(''metadata'', JObj [(''exists'', JBool True)]),
             (''metadata.count'', JObj [(''exists'', JBool True)])].
         checkCondition ?f ?f ?ev e \<noteq> Inl TypeError"
    by (simp add: checkCondition_def)
  from falsy_path_is_no_match [OF i f, of ?f ?f "JNum 0" "[]"]
  have a: "checkCondition ?f ?f ?ev (''metadata.count'', JNum 0) = Inr False"
    and b: "matchesConditions ?f ?f [(''metadata.count'', JNum 0)] ?ev = Inr False"
    by simp_all
  from falsy_path_is_no_match [OF i f, of ?f ?f "JObj [(''exists'', JBool True)]"
      "[(''metadata'', JObj [(''exists'', JBool True)]),
        (''metadata.count'', JObj [(''exists'', JBool True)])]"] m1 n1
  have c: "matchesConditions ?f ?f
      [(''metadata'', JObj [(''exists'', JBool True)]),
       (''metadata.count'', JObj [(''exists'', JBool True)])] ?ev = Inr False"
    by blast
  from a b c show ?thesis by simp
qed

section \<open>Properties of the tracking collector\<close>

lemma campaigns_saveEmail [simp]: "campaigns (saveEmail i f st) = campaigns st"
  by (simp add: saveEmail_def)

lemma emails_incAnalytics [simp]: "emails (incAnalytics f i st) = emails st"
  by (simp add: incAnalytics_def)

lemma e_status_updateStatus [simp]: "e_status (updateStatus now s id doc) = s"
  by (cases s) (simp_all add: updateStatus_def)

lemma e_id_updateStatus [simp]: "e_id (updateStatus now s id doc) = e_id doc"
  by (cases s) (simp_all add: updateStatus_def)

lemma e_trackingId_updateStatus [simp]: "e_trackingId (updateStatus now s id doc) = e_trackingId doc"
  by (cases s) (simp_all add: updateStatus_def)

lemma e_links_updateStatus [simp]: "e_links (updateStatus now s id doc) = e_links doc"
  by (cases s) (simp_all add: updateStatus_def)

lemma e_campaignId_updateStatus [simp]: "e_campaignId (updateStatus now s id doc) = e_campaignId doc"
  by (cases s) (simp_all add: updateStatus_def)

lemma click_on_valid_link_leaves_campaigns:
  assumes "findOneByTrackingId st tid = Some em" and "linkAt em (parseInt li) = Some i"
  shows "campaigns (snd (trackEmailClick now st tid li)) = campaigns st"
  using assms by (simp add: trackEmailClick_def trackClick_def Let_def)

lemma click_on_missing_link_counts:
  assumes "findOneByTrackingId st tid = Some em" and "linkAt em (parseInt li) = None"
    and "e_status em \<noteq> Clicked"
  shows "snd (trackEmailClick now st tid li) = incAnalytics incClicked (e_campaignId em) (saveEmail (e_id em) id st)"
  using assms by (simp add: trackEmailClick_def trackClick_def Let_def)

text \<open>
  C2 (the code departs from the claim). The first click on link 0 of a sent
  delivery: the link count becomes 1 and the status \<open>Clicked\<close>, but the
  \<open>clicked\<close> counter of the campaign stays 0. \<open>trackEmailClick\<close> tests
  \<^verbatim>\<open>email.status !== 'clicked'\<close> after \<^verbatim>\<open>email.trackClick\<close> has set the status,
  so a click on a valid link never reaches the increment
  (\<open>click_on_valid_link_leaves_campaigns\<close>); only a click on a link index
  that does not exist is counted (\<open>click_on_missing_link_counts\<close>).
\<close>

theorem first_click_is_not_counted:
  "map (a_clicked \<circ> c_analytics) (campaigns trackingStore) = [0]
   \<and> map e_status (emails trackingStore) = [Sent]
   \<and> map (a_clicked \<circ> c_analytics) (campaigns (snd (trackEmailClick 5000 trackingStore ''k1'' ''0''))) = [0]
   \<and> map e_status (emails (snd (trackEmailClick 5000 trackingStore ''k1'' ''0''))) = [Clicked]
   \<and> map (map clicks \<circ> e_links) (emails (snd (trackEmailClick 5000 trackingStore ''k1'' ''0''))) = [[1, 0]]
   \<and> url (fst (trackEmailClick 5000 trackingStore ''k1'' ''0'')) = Some ''https://x.test/a''"
  by (simp add: trackEmailClick_def trackingStore_def delivery1_def campaign1_def analytics0_def
     findOneByTrackingId_def
     trackClick_def linkAt_def parseInt_def is_space_def is_digit_def digitsValue_def
     updateStatus_def saveEmail_def incAnalytics_def Let_def originalUrl_def arrayIndex_def)

text \<open>
  C8, as stated, fails: an open hit on a delivery in status \<open>Clicked\<close> moves
  it to \<open>Opened\<close> and counts one more open.
\<close>

theorem open_hit_after_click_counterexample:
  "map e_status (emails clickedStore) = [Clicked]
   \<and> map e_status (emails (snd (trackEmailOpen 9000 clickedStore ''k1''))) = [Opened]
   \<and> map (a_opened \<circ> c_analytics) (campaigns clickedStore) = [0]
   \<and> map (a_opened \<circ> c_analytics) (campaigns (snd (trackEmailOpen 9000 clickedStore ''k1''))) = [1]"
  by (simp add: trackEmailOpen_def clickedStore_def trackingStore_def delivery1_def campaign1_def
     analytics0_def findOneByTrackingId_def
     updateStatus_def saveEmail_def incAnalytics_def incOpened_def Let_def)

lemma find_map_preserved:
  assumes "find P xs = Some x" and "\<And>y. P (f y) = P y"
  shows "find P (map f xs) = Some (f x)"
  using assms by (induction xs) (auto split: if_splits)

text \<open>
  C8, amended. An open hit on a delivery that is found leaves it in status
  \<open>Opened\<close>, in memory and in the store, whatever its status was; the store
  changes (status, \<open>openedAt\<close>, one more open on the campaign) exactly when the
  status was not \<open>Opened\<close> already.
\<close>

theorem open_hit_sets_opened:
  assumes "findOneByTrackingId st tid = Some em"
  shows "map_option e_status (fst (trackEmailOpen now st tid)) = Some Opened
    \<and> map_option e_status (findOneByTrackingId (snd (trackEmailOpen now st tid)) tid) = Some Opened
    \<and> snd (trackEmailOpen now st tid) =
        (if e_status em = Opened then st
         else incAnalytics incOpened (e_campaignId em) (saveEmail (e_id em) (updateStatus now Opened id) st))"
proof (cases "e_status em = Opened")
  case True
  with assms show ?thesis by (simp add: trackEmailOpen_def)
next
  case False
  let ?f = "\<lambda>e. if e_id e = e_id em then updateStatus now Opened id e else e"
  from assms have "find (\<lambda>e. e_trackingId e = tid) (map ?f (emails st)) = Some (?f em)"
    unfolding findOneByTrackingId_def by (rule find_map_preserved) simp
  then have "map_option e_status (findOneByTrackingId (saveEmail (e_id em) (updateStatus now Opened id) st) tid) = Some Opened"
    by (simp add: findOneByTrackingId_def saveEmail_def)
  with assms False show ?thesis
    by (simp add: trackEmailOpen_def Let_def findOneByTrackingId_def)
qed

theorem open_hit_sets_opened_witness:
  "map_option e_status (fst (trackEmailOpen 9000 clickedStore ''k1'')) = Some Opened
   \<and> map_option e_status (findOneByTrackingId (snd (trackEmailOpen 9000 clickedStore ''k1'')) ''k1'') = Some Opened
   \<and> map (a_opened \<circ> c_analytics) (campaigns (snd (trackEmailOpen 9000 clickedStore ''k1''))) = [1]"
proof -
  have f: "findOneByTrackingId clickedStore ''k1'' = Some (delivery1\<lparr>e_status := Clicked, e_clickedAt := Some 5000\<rparr>)"
    by (simp add: findOneByTrackingId_def clickedStore_def delivery1_def)
  note t = open_hit_sets_opened [OF f, of 9000]
  from t have a: "map_option e_status (fst (trackEmailOpen 9000 clickedStore ''k1'')) = Some Opened"
    and b: "map_option e_status (findOneByTrackingId (snd (trackEmailOpen 9000 clickedStore ''k1'')) ''k1'') = Some Opened"
    by blast+
  from t have "snd (trackEmailOpen 9000 clickedStore ''k1'') =
      incAnalytics incOpened ''c1'' (saveEmail ''d1'' (updateStatus 9000 Opened id) clickedStore)"
    by (simp add: delivery1_def)
  then have c: "map (a_opened \<circ> c_analytics) (campaigns (snd (trackEmailOpen 9000 clickedStore ''k1''))) = [1]"
    by (simp add: clickedStore_def trackingStore_def campaign1_def analytics0_def
         incAnalytics_def saveEmail_def incOpened_def)
  from a b c show ?thesis by blast
qed


lemma e_links_trackClick:
  "map original (e_links (trackClick now doc idx doc)) = map original (e_links doc)"
  by (auto simp: trackClick_def linkAt_def map_update list_update_same_conv split: option.splits if_splits)

lemma originalUrl_trackClick: "originalUrl (trackClick now doc idx doc) li = originalUrl doc li"
proof -
  let ?d = "trackClick now doc idx doc"
  have m: "map original (e_links ?d) = map original (e_links doc)" by (rule e_links_trackClick)
  then have l: "length (e_links ?d) = length (e_links doc)" by (rule map_eq_imp_length_eq)
  have "original (e_links ?d ! i) = original (e_links doc ! i)" if "i < length (e_links doc)" for i
  proof -
    from that l have "original (e_links ?d ! i) = map original (e_links ?d) ! i" by simp
    also from m that have "\<dots> = original (e_links doc ! i)" by simp
    finally show ?thesis .
  qed
  with l show ?thesis by (simp add: originalUrl_def split: option.splits)
qed

text \<open>
  The decimal strings are the array indices: \<open>arrayIndex\<close> reads the
  number back from \<open>decimal\<close>, and accepts no other string.
\<close>

lemma below_ten: "d < 10 \<Longrightarrow> d \<in> {0, 1, 2, 3, 4, 5, 6, 7, 8, 9 :: nat}"
  by auto

lemma of_char_digitChar: "d < 10 \<Longrightarrow> (of_char (digitChar d) :: nat) = 48 + d"
  using below_ten [of d] by (auto simp: digitChar_def)

lemma digitChar_of_char: "is_digit c \<Longrightarrow> digitChar (of_char c - 48) = c"
proof -
  assume d: "is_digit c"
  then obtain k where k: "k < 10" and c: "(of_char c :: nat) = 48 + k"
    by (auto simp: is_digit_def intro: that [of "of_char c - 48"])
  from of_char_digitChar [OF k] c have "(of_char (digitChar k) :: nat) = of_char c" by simp
  then have "digitChar k = c" by simp
  with c show ?thesis by simp
qed

lemma is_digit_digitChar: "d < 10 \<Longrightarrow> is_digit (digitChar d)"
  by (simp add: is_digit_def of_char_digitChar)

lemma digitsValue_snoc: "digitsValue (ds @ [c]) = 10 * digitsValue ds + (of_char c - 48)"
  by (simp add: digitsValue_def)

lemma decimal_nonempty: "decimal n \<noteq> []"
  by (subst decimal.simps) simp

lemma decimal_digits: "list_all is_digit (decimal n)"
proof (induction n rule: decimal.induct)
  case (1 n)
  show ?case
  proof (cases "n < 10")
    case True
    then show ?thesis by (subst decimal.simps) (simp add: is_digit_digitChar)
  next
    case False
    with 1 have "list_all is_digit (decimal (n div 10))" by simp
    with False show ?thesis by (subst decimal.simps) (simp add: is_digit_digitChar)
  qed
qed

lemma digitsValue_decimal: "digitsValue (decimal n) = n"
proof (induction n rule: decimal.induct)
  case (1 n)
  show ?case
  proof (cases "n < 10")
    case True
    then show ?thesis by (subst decimal.simps) (simp add: digitsValue_def of_char_digitChar)
  next
    case False
    with 1 have "digitsValue (decimal (n div 10)) = n div 10" by simp
    with False show ?thesis
      by (subst decimal.simps) (simp add: digitsValue_snoc of_char_digitChar)
  qed
qed

lemma hd_decimal: "0 < n \<Longrightarrow> hd (decimal n) \<noteq> CHR ''0''"
proof (induction n rule: decimal.induct)
  case (1 n)
  show ?case
  proof (cases "n < 10")
    case True
    have "(of_char (digitChar n) :: nat) \<noteq> of_char CHR ''0''"
      using 1(2) True by (simp add: of_char_digitChar)
    then have "digitChar n \<noteq> CHR ''0''" by auto
    with True show ?thesis by (subst decimal.simps) simp
  next
    case False
    then have "0 < n div 10" by simp
    with 1 False have "hd (decimal (n div 10)) \<noteq> CHR ''0''" by simp
    with False decimal_nonempty [of "n div 10"] show ?thesis
      by (subst decimal.simps) simp
  qed
qed

lemma decimal_zero: "decimal 0 = ''0''"
  by (simp add: decimal.simps digitChar_def)

lemma arrayIndex_decimal: "arrayIndex (decimal n) = Some n"
proof (cases "n = 0")
  case True
  then show ?thesis by (simp add: decimal_zero arrayIndex_def is_digit_def digitsValue_def)
next
  case False
  then have "hd (decimal n) \<noteq> CHR ''0''" by (simp add: hd_decimal)
  then show ?thesis
    by (simp add: arrayIndex_def decimal_nonempty decimal_digits digitsValue_decimal)
qed

lemma digitsValue_positive:
  "ds \<noteq> [] \<Longrightarrow> list_all is_digit ds \<Longrightarrow> hd ds \<noteq> CHR ''0'' \<Longrightarrow> 0 < digitsValue ds"
proof (induction ds rule: rev_induct)
  case Nil
  then show ?case by simp
next
  case (snoc c ds)
  show ?case
  proof (cases "ds = []")
    case True
    from snoc.prems have d: "is_digit c" and z: "c \<noteq> CHR ''0''" using True by simp_all
    have "(of_char c :: nat) \<noteq> 48"
    proof
      assume "(of_char c :: nat) = 48"
      then have "(of_char c :: nat) = of_char CHR ''0''" by simp
      then have "c = CHR ''0''" by (simp only: of_char_eq_iff)
      with z show False by simp
    qed
    with d True show ?thesis by (simp add: digitsValue_def is_digit_def)
  next
    case False
    with snoc have "0 < digitsValue ds" by simp
    then show ?thesis by (simp add: digitsValue_snoc)
  qed
qed

lemma decimal_digitsValue:
  "ds \<noteq> [] \<Longrightarrow> list_all is_digit ds \<Longrightarrow> ds = ''0'' \<or> hd ds \<noteq> CHR ''0'' \<Longrightarrow> decimal (digitsValue ds) = ds"
proof (induction ds rule: rev_induct)
  case Nil
  then show ?case by simp
next
  case (snoc c ds)
  from snoc.prems have d: "is_digit c" by simp
  then have lt: "(of_char c :: nat) - 48 < 10" by (auto simp: is_digit_def)
  show ?case
  proof (cases "ds = []")
    case True
    with lt d show ?thesis
      by (subst decimal.simps) (simp add: digitsValue_def digitChar_of_char)
  next
    case False
    with snoc.prems have h: "hd ds \<noteq> CHR ''0''" and a: "list_all is_digit ds" by auto
    from snoc.IH [OF False a] h have ih: "decimal (digitsValue ds) = ds" by simp
    from digitsValue_positive [OF False a h] have p: "0 < digitsValue ds" .
    let ?n = "10 * digitsValue ds + (of_char c - 48)"
    from p have ge: "\<not> ?n < 10" by simp
    from lt have dv: "?n div 10 = digitsValue ds" and md: "?n mod 10 = of_char c - 48" by simp_all
    have "decimal ?n = decimal (?n div 10) @ [digitChar (?n mod 10)]"
      using ge by (subst decimal.simps) simp
    with dv md ih d show ?thesis by (simp add: digitsValue_snoc digitChar_of_char)
  qed
qed

lemma arrayIndex_Some: "arrayIndex s = Some n \<Longrightarrow> s = decimal n"
  by (auto simp: arrayIndex_def decimal_digitsValue split: if_splits)

lemma originalUrl_at:
  "i < length (e_links doc) \<Longrightarrow> originalUrl doc (decimal i) = original (e_links doc ! i)"
  by (simp add: originalUrl_def arrayIndex_decimal)

lemma originalUrl_elsewhere:
  assumes "\<forall>i < length (e_links doc). li \<noteq> decimal i"
  shows "originalUrl doc li = ''/''"
proof (cases "arrayIndex li")
  case None
  then show ?thesis by (simp add: originalUrl_def)
next
  case (Some j)
  from arrayIndex_Some [OF Some] assms have "\<not> j < length (e_links doc)" by blast
  with Some show ?thesis by (simp add: originalUrl_def)
qed

lemma clickService_redirect:
  "fst (trackEmailClickEndpoint (clickService now) st tid li) =
     Redirect (case find (\<lambda>e. e_trackingId e = tid) (emails st) of
                 None \<Rightarrow> ''/''
               | Some em \<Rightarrow> if originalUrl em li = [] then ''/'' else originalUrl em li)"
  by (simp add: trackEmailClickEndpoint_def clickService_def trackEmailClick_def Let_def
       findOneByTrackingId_def originalUrl_trackClick split: option.splits)

text \<open>
  C9. The open endpoint answers 200 with the transparent GIF whatever happens
  in its \<^verbatim>\<open>try\<close> block and whatever the service does or raises. The click
  endpoint answers with a redirect whatever the service returns or raises, and
  with a redirect to \<^verbatim>\<open>/\<close> when the service raises. With the service of this
  repository: when no delivery has the tracking id, the redirect goes to
  \<^verbatim>\<open>/\<close>; when a delivery has it and the link index is the decimal string of
  a position \<open>i\<close> of its registry, the redirect goes to the original URL of
  link \<open>i\<close> (to \<^verbatim>\<open>/\<close> when that URL is empty); for every other link index it
  goes to \<^verbatim>\<open>/\<close>.
\<close>

theorem tracking_endpoints_always_answer:
  "(\<exists>headers. fst (trackEmailOpenEndpoint outcome openSvc openState tid) = Image 200 headers transparentGif)
   \<and> (\<exists>u. fst (trackEmailClickEndpoint clickSvc clickState tid li) = Redirect u)
   \<and> (fst (clickSvc clickState tid li) = Inl err \<longrightarrow>
        fst (trackEmailClickEndpoint clickSvc clickState tid li) = Redirect ''/'')
   \<and> (find (\<lambda>e. e_trackingId e = tid) (emails st) = None \<longrightarrow>
        fst (trackEmailClickEndpoint (clickService now) st tid li) = Redirect ''/'')
   \<and> (find (\<lambda>e. e_trackingId e = tid) (emails st) = Some em \<and> i < length (e_links em) \<longrightarrow>
        fst (trackEmailClickEndpoint (clickService now) st tid (decimal i))
          = Redirect (if original (e_links em ! i) = [] then ''/'' else original (e_links em ! i)))
   \<and> (find (\<lambda>e. e_trackingId e = tid) (emails st) = Some em
        \<and> (\<forall>i < length (e_links em). li \<noteq> decimal i) \<longrightarrow>
        fst (trackEmailClickEndpoint (clickService now) st tid li) = Redirect ''/'')"
proof -
  have a: "\<exists>headers. fst (trackEmailOpenEndpoint outcome openSvc openState tid) = Image 200 headers transparentGif"
    by (cases outcome) (simp_all add: trackEmailOpenEndpoint_def)
  have b: "\<exists>u. fst (trackEmailClickEndpoint clickSvc clickState tid li) = Redirect u"
    by (auto simp: trackEmailClickEndpoint_def split: prod.splits sum.splits option.splits)
  have c: "fst (clickSvc clickState tid li) = Inl err \<longrightarrow>
        fst (trackEmailClickEndpoint clickSvc clickState tid li) = Redirect ''/''"
    by (cases "clickSvc clickState tid li") (simp add: trackEmailClickEndpoint_def)
  have d: "find (\<lambda>e. e_trackingId e = tid) (emails st) = None \<longrightarrow>
        fst (trackEmailClickEndpoint (clickService now) st tid li) = Redirect ''/''"
    by (simp add: clickService_redirect)
  have e: "find (\<lambda>e. e_trackingId e = tid) (emails st) = Some em \<and> i < length (e_links em) \<longrightarrow>
        fst (trackEmailClickEndpoint (clickService now) st tid (decimal i))
          = Redirect (if original (e_links em ! i) = [] then ''/'' else original (e_links em ! i))"
    by (simp add: clickService_redirect originalUrl_at)
  have f: "find (\<lambda>e. e_trackingId e = tid) (emails st) = Some em
        \<and> (\<forall>i < length (e_links em). li \<noteq> decimal i) \<longrightarrow>
        fst (trackEmailClickEndpoint (clickService now) st tid li) = Redirect ''/''"
    by (simp add: clickService_redirect originalUrl_elsewhere)
  show ?thesis by (intro conjI a b c d e f)
qed

theorem tracking_endpoints_always_answer_witness:
  "fst (trackEmailClickEndpoint (clickService 9000) trackingStore ''k1'' ''1'') = Redirect ''https://x.test/b''
   \<and> fst (trackEmailClickEndpoint (clickService 9000) trackingStore ''k1'' ''7'') = Redirect ''/''
   \<and> fst (trackEmailClickEndpoint (clickService 9000) trackingStore ''k1'' ''01'') = Redirect ''/''
   \<and> fst (trackEmailClickEndpoint (clickService 9000) trackingStore ''k2'' ''0'') = Redirect ''/''
   \<and> fst (trackEmailClickEndpoint (\<lambda>st tid li. (Inl InternalError, st)) trackingStore ''k1'' ''0'')
       = Redirect ''/''
   \<and> (\<exists>headers. fst (trackEmailOpenEndpoint RaisedBeforeDispatch (\<lambda>st tid. (Inl InternalError, st))
         trackingStore ''k1'') = Image 200 headers transparentGif)"
proof -
  have f1: "find (\<lambda>e. e_trackingId e = ''k1'') (emails trackingStore) = Some delivery1"
    by (simp add: trackingStore_def delivery1_def)
  have f2: "find (\<lambda>e. e_trackingId e = ''k2'') (emails trackingStore) = None"
    by (simp add: trackingStore_def delivery1_def)
  have l: "length (e_links delivery1) = 2" by (simp add: delivery1_def)
  have d0: "decimal 0 = ''0''" and d1: "decimal (Suc 0) = ''1''"
    by (simp_all add: decimal.simps digitChar_def)
  have less2: "i < 2 \<longleftrightarrow> i = 0 \<or> i = Suc 0" for i :: nat by auto
  have n7: "\<forall>i < length (e_links delivery1). ''7'' \<noteq> decimal i"
    by (simp add: l less2 d0 d1)
  have n01: "\<forall>i < length (e_links delivery1). ''01'' \<noteq> decimal i"
    by (simp add: l less2 d0 d1)
  note t = tracking_endpoints_always_answer
    [where st = trackingStore and now = 9000 and clickState = trackingStore
       and clickSvc = "\<lambda>st tid li. (Inl InternalError, st)" and err = InternalError
       and outcome = RaisedBeforeDispatch and openSvc = "\<lambda>st tid. (Inl InternalError, st)"
       and openState = trackingStore]
  from t [where tid = "''k1''" and em = delivery1 and i = "Suc 0" and li = "''0''"] f1 l
  have "fst (trackEmailClickEndpoint (clickService 9000) trackingStore ''k1'' (decimal (Suc 0)))
          = Redirect (if original (e_links delivery1 ! Suc 0) = [] then ''/''
                      else original (e_links delivery1 ! Suc 0))"
    by simp
  then have a: "fst (trackEmailClickEndpoint (clickService 9000) trackingStore ''k1'' ''1'') = Redirect ''https://x.test/b''"
    by (simp add: d1 delivery1_def)
  from t [where tid = "''k1''" and em = delivery1 and i = 0 and li = "''7''"] f1 n7
  have b: "fst (trackEmailClickEndpoint (clickService 9000) trackingStore ''k1'' ''7'') = Redirect ''/''"
    by blast
  from t [where tid = "''k1''" and em = delivery1 and i = 0 and li = "''01''"] f1 n01
  have c: "fst (trackEmailClickEndpoint (clickService 9000) trackingStore ''k1'' ''01'') = Redirect ''/''"
    by blast
  from t [where tid = "''k2''" and em = delivery1 and i = 0 and li = "''0''"] f2
  have d: "fst (trackEmailClickEndpoint (clickService 9000) trackingStore ''k2'' ''0'') = Redirect ''/''"
    by blast
  from t [where tid = "''k1''" and em = delivery1 and i = 0 and li = "''0''"]
  have e: "fst (trackEmailClickEndpoint (\<lambda>st tid li. (Inl InternalError, st)) trackingStore ''k1'' ''0'')
       = Redirect ''/''"
    and f: "\<exists>headers. fst (trackEmailOpenEndpoint RaisedBeforeDispatch (\<lambda>st tid. (Inl InternalError, st))
         trackingStore ''k1'') = Image 200 headers transparentGif"
    by simp_all
  show ?thesis by (intro conjI a b c d e f)
qed


section \<open>Properties of the delivery worker\<close>

text \<open>
  C3, as stated, fails. Two runs of the worker have both read the due delivery.
  The first run sends it and leaves it in status \<open>Sent\<close>; the claim step of
  the second run writes \<open>Sending\<close> over that status, and the delivery is
  handed to the transport a second time.
\<close>

theorem worker_runs_overlap_counterexample:
  "map e_id (findPendingEmails 2000 10 workerStore) = [''d1'']
   \<and> map e_status (emails (snd (sendPending acceptAll 2000 (findPendingEmails 2000 10 workerStore) (0, workerStore))))
     = [Sent]
   \<and> outbox (snd (sendPending acceptAll 2001 (findPendingEmails 2000 10 workerStore)
        (0, snd (sendPending acceptAll 2000 (findPendingEmails 2000 10 workerStore) (0, workerStore)))))
     = [''d1'', ''d1'']
   \<and> map (a_sent \<circ> c_analytics) (campaigns (snd (sendPending acceptAll 2001 (findPendingEmails 2000 10 workerStore)
        (0, snd (sendPending acceptAll 2000 (findPendingEmails 2000 10 workerStore) (0, workerStore))))))
     = [3]"
  by code_simp

lemma emails_saveEmail: "emails (saveEmail i f st) = map (\<lambda>e. if e_id e = i then f e else e) (emails st)"
  by (simp add: saveEmail_def)

lemma outbox_saveEmail [simp]: "outbox (saveEmail i f st) = outbox st"
  by (simp add: saveEmail_def)

lemma outbox_incAnalytics [simp]: "outbox (incAnalytics f i st) = outbox st"
  by (simp add: incAnalytics_def)

lemma updateStatus_Sent [simp]:
  "e_status (updateStatus now Sent (\<lambda>e. e\<lparr>e_sentAt := a, e_messageId := b\<rparr>) d) = Sent"
  "e_id (updateStatus now Sent (\<lambda>e. e\<lparr>e_sentAt := a, e_messageId := b\<rparr>) d) = e_id d"
  by (simp_all add: updateStatus_def)

lemma updateStatus_Failed [simp]:
  "e_status (updateStatus now Failed (\<lambda>e. e\<lparr>e_errorMessage := a\<rparr>) d) = Failed"
  "e_id (updateStatus now Failed (\<lambda>e. e\<lparr>e_errorMessage := a\<rparr>) d) = e_id d"
  by (simp_all add: updateStatus_def)

lemma sendPending_claimed:
  "claimed S st \<Longrightarrow> claimed (S \<union> set (map e_id batch)) (snd (sendPending send now batch (k, st)))"
proof (induction batch arbitrary: S k st)
  case Nil
  then show ?case by simp
next
  case (Cons email batch)
  let ?st1 = "saveEmail (e_id email) (\<lambda>e. e\<lparr>e_status := Sending\<rparr>) st"
  show ?case
  proof (cases "send (email\<lparr>e_status := Sending\<rparr>)")
    case (Inr messageId)
    let ?st3 = "incAnalytics incSent (e_campaignId email)
        ((saveEmail (e_id email)
            (updateStatus now Sent (\<lambda>e. e\<lparr>e_sentAt := Some now, e_messageId := Some messageId\<rparr>)) ?st1)
          \<lparr>outbox := outbox ?st1 @ [e_id email]\<rparr>)"
    from Cons.prems have "claimed (S \<union> {e_id email}) ?st3"
      by (auto simp: claimed_def emails_saveEmail)
    from Cons.IH [OF this, of "Suc k"] Inr show ?thesis
      by (simp add: Let_def Un_assoc)
  next
    case (Inl err)
    let ?st3 = "incAnalytics incBounced (e_campaignId email)
        (saveEmail (e_id email)
            (updateStatus now Failed (\<lambda>e. e\<lparr>e_errorMessage := Some (errorMessage err)\<rparr>)) ?st1)"
    from Cons.prems have "claimed (S \<union> {e_id email}) ?st3"
      by (auto simp: claimed_def emails_saveEmail)
    from Cons.IH [OF this, of k] Inl show ?thesis
      by (simp add: Let_def Un_assoc)
  qed
qed

lemma set_limitTo: "set (limitTo n xs) \<subseteq> set xs"
  by (auto simp: limitTo_def dest: in_set_takeD)

lemma pending_is_scheduled:
  "e \<in> set (findPendingEmails now n st) \<Longrightarrow> e \<in> set (emails st) \<and> e_status e = Scheduled"
  using set_limitTo [of n "sort_key e_scheduledFor
       (filter (\<lambda>e. e_status e = Scheduled \<and> e_scheduledFor e \<le> now) (emails st))"]
  by (auto simp: findPendingEmails_def)

lemma sendPending_outbox:
  "outbox (snd (sendPending acceptAll now batch (k, st))) = outbox st @ map e_id batch"
  by (induction batch arbitrary: k st) (simp_all add: acceptAll_def Let_def)

text \<open>
  C3, amended. The claim step writes the status \<open>Sending\<close> from the copy of
  the delivery that the run holds, whatever status is stored: a run hands
  every delivery of its batch to the transport (with a transport that accepts
  all, the outbox grows by the whole batch). What keeps a delivery from a
  second send is the query alone: no delivery of the batch of a finished run
  is returned by the query of a later run.
\<close>

theorem later_worker_run_skips_what_was_sent:
  "set (map e_id (findPendingEmails now2 n2 (snd (processScheduledEmails send now n st))))
     \<inter> set (map e_id (findPendingEmails now n st)) = {}
   \<and> outbox (snd (sendPending acceptAll now batch (k, st))) = outbox st @ map e_id batch"
proof -
  let ?batch = "findPendingEmails now n st"
  let ?st' = "snd (processScheduledEmails send now n st)"
  have "claimed {} st" by (simp add: claimed_def)
  from sendPending_claimed [OF this, of ?batch send now 0]
  have c: "claimed (set (map e_id ?batch)) (snd (sendPending send now ?batch (0, st)))" by simp
  have "claimed (set (map e_id ?batch)) ?st'"
  proof (cases "?batch = []")
    case True
    then show ?thesis by (simp add: claimed_def)
  next
    case False
    with c show ?thesis by (simp add: processScheduledEmails_def Let_def)
  qed
  then have "e_id e \<notin> set (map e_id ?batch)" if "e \<in> set (findPendingEmails now2 n2 ?st')" for e
    using pending_is_scheduled [OF that] by (auto simp: claimed_def)
  then have "set (map e_id (findPendingEmails now2 n2 ?st')) \<inter> set (map e_id ?batch) = {}"
    by auto
  with sendPending_outbox show ?thesis by blast
qed

section \<open>Properties of the matcher\<close>

text \<open>
  Every call of \<open>scheduleEmail\<close> raises, and leaves the store as it was but
  for the ObjectId counter: the template is missing, or the rendering raises,
  or \<^verbatim>\<open>email.save()\<close> raises, in the validation or in the pre-save hook, since
  the document has no tracking id.
\<close>

lemma scheduleEmail_stores_nothing:
  "isl (fst (scheduleEmail r e now c ev u t st))
   \<and> (snd (scheduleEmail r e now c ev u t st) = st
        \<or> snd (scheduleEmail r e now c ev u t st) = st\<lparr>nextObjectId := Suc (nextObjectId st)\<rparr>)"
proof -
  have i: "isl (fst (insertEmail doc s)) \<and> snd (insertEmail doc s) = s"
    if "e_trackingId doc = []" for doc s
    using that by (simp add: insertEmail_def)
  show ?thesis
  proof (cases "find (\<lambda>t. t_id t = c_templateId c) (templates st)")
    case None
    then show ?thesis by (simp add: scheduleEmail_def)
  next
    case (Some template)
    show ?thesis
    proof (cases "renderTemplate r (t_subject template) (buildVariables e c ev u)")
      case (Inl x)
      with Some show ?thesis by (simp add: scheduleEmail_def Let_def)
    next
      case subj: (Inr subject)
      show ?thesis
      proof (cases "renderTemplate r (t_body template) (buildVariables e c ev u)")
        case (Inl x)
        with Some subj show ?thesis by (simp add: scheduleEmail_def Let_def)
      next
        case (Inr body)
        with Some subj show ?thesis by (simp add: scheduleEmail_def Let_def i)
      qed
    qed
  qed
qed

lemma scheduleEmail_sameEvents:
  "sameEvents st (snd (scheduleEmail r e now c ev u t st))"
  using scheduleEmail_stores_nothing [of r e now c ev u t st] by (auto simp: sameEvents_def)

lemma scheduleEmail_emails:
  "emails (snd (scheduleEmail r e now c ev u t st)) = emails st"
  using scheduleEmail_stores_nothing [of r e now c ev u t st] by auto

lemma addTriggeredCampaign_effect:
  "fst (addTriggeredCampaign now i s t ev st)
     = ev\<lparr>ev_triggeredCampaigns := ev_triggeredCampaigns ev
            @ [\<lparr>tc_campaignId = i, tc_processedAt = now, tc_status = s, tc_scheduledFor = t\<rparr>]\<rparr>"
  "emails (snd (addTriggeredCampaign now i s t ev st)) = emails st"
  "events (snd (addTriggeredCampaign now i s t ev st))
     = map (\<lambda>d. if ev_id d = ev_id ev
                 then d\<lparr>ev_triggeredCampaigns := ev_triggeredCampaigns d
                        @ [\<lparr>tc_campaignId = i, tc_processedAt = now, tc_status = s, tc_scheduledFor = t\<rparr>]\<rparr>
                 else d) (events st)"
  by (simp_all add: addTriggeredCampaign_def Let_def)







lemma matchesConditions_no_null:
  "JNull \<notin> snd ` set conds \<Longrightarrow> \<exists>b. matchesConditions l g conds v = Inr b"
proof -
  assume n: "JNull \<notin> snd ` set conds"
  have one: "\<exists>b. checkCondition l g v e = Inr b" if "snd e \<noteq> JNull" for e
    using that by (auto simp: checkCondition_def Let_def split: option.splits)
  from n have "\<exists>b. conditionsLoop l g v conds = Inr b"
  proof (induction conds)
    case Nil
    then show ?case by auto
  next
    case (Cons e es)
    then have "snd e \<noteq> JNull" by auto
    from one [OF this] obtain b where "checkCondition l g v e = Inr b" by blast
    with Cons show ?case by (cases b) auto
  qed
  then show ?thesis by (auto simp: matchesConditions_def)
qed

lemma processCampaigns_eventUpdates:
  "eventUpdates (snd (snd (snd (processCampaigns m now user cs (trig, ev, st))))) = eventUpdates st"
proof (induction cs arbitrary: trig ev st)
  case Nil
  then show ?case by simp
next
  case (Cons c cs)
  have a: "eventUpdates (snd (addTriggeredCampaign now i s t ev st)) = eventUpdates st" for i s t
    by (simp add: addTriggeredCampaign_def Let_def)
  have b: "eventUpdates (snd (scheduleEmail r e now c ev' user t st')) = eventUpdates st'" for r e ev' t st'
    using scheduleEmail_sameEvents [of st' r e now c ev' user t] by (simp add: sameEvents_def)
  show ?case
    by (simp add: Cons.IH a b Let_def split: sum.splits)
qed

lemma processCampaigns_no_null:
  assumes "\<forall>c \<in> set cs. JNull \<notin> snd ` set (c_conditions c)"
  shows "fst (processCampaigns m now user cs (trig, ev, st)) = None"
  using assms
proof (induction cs arbitrary: trig ev st)
  case Nil
  then show ?case by simp
next
  case (Cons c cs)
  then have "JNull \<notin> snd ` set (c_conditions c)" by simp
  from matchesConditions_no_null [OF this]
  obtain b where "matchesConditions (rt_le m) (rt_ge m) (c_conditions c) (eventValue ev) = Inr b"
    by blast
  moreover from Cons have "fst (processCampaigns m now user cs (t', ev', st')) = None" for t' ev' st'
    by simp
  ultimately show ?case by (cases b) (simp_all add: Let_def)
qed

lemma markProcessed_processed:
  "d \<in> set (events (markProcessed i s)) \<Longrightarrow> ev_id d = i \<longrightarrow> ev_processed d"
proof
  assume d: "d \<in> set (events (markProcessed i s))" and i: "ev_id d = i"
  from d obtain x where dx: "d = (if ev_id x = i then x\<lparr>ev_processed := True\<rparr> else x)"
    unfolding markProcessed_def by fastforce
  show "ev_processed d"
  proof (cases "ev_id x = i")
    case True
    with dx show ?thesis by simp
  next
    case False
    with dx i show ?thesis by simp
  qed
qed

lemma processEvent_finalizes:
  assumes "\<forall>c \<in> set (campaigns st). c_triggerEvent c = ev_eventType ev \<and> c_status c = Active
             \<longrightarrow> JNull \<notin> snd ` set (c_conditions c)"
  shows "(\<exists>triggeredCampaigns. fst (processEvent m now ev st) = Inr triggeredCampaigns)
    \<and> eventUpdates (snd (snd (processEvent m now ev st))) = eventUpdates st @ [ev_id ev]
    \<and> (\<forall>d \<in> set (events (snd (snd (processEvent m now ev st)))). ev_id d = ev_id ev \<longrightarrow> ev_processed d)"
proof -
  let ?cs = "filter (\<lambda>c. c_triggerEvent c = ev_eventType ev \<and> c_status c = Active) (campaigns st)"
  have m1: "eventUpdates (markProcessed i s) = eventUpdates s @ [i]" for i s
    by (simp add: markProcessed_def)
  have m2: "\<forall>d \<in> set (events (markProcessed i s)). ev_id d = i \<longrightarrow> ev_processed d" for i s
    using markProcessed_processed [of _ i s] by blast
  have m: "eventUpdates (markProcessed i s) = eventUpdates s @ [i]
      \<and> (\<forall>d \<in> set (events (markProcessed i s)). ev_id d = i \<longrightarrow> ev_processed d)" for i s
    by (rule conjI [OF m1 m2])
  consider (none) "?cs = []"
    | (nouser) "?cs \<noteq> []" "find (\<lambda>u. u_id u = ev_userId ev) (users st) = None"
    | (loop) user where "?cs \<noteq> []" "find (\<lambda>u. u_id u = ev_userId ev) (users st) = Some user"
    by (cases "find (\<lambda>u. u_id u = ev_userId ev) (users st)") auto
  then show ?thesis
  proof cases
    case none
    then have "processEvent m now ev st = (Inr [], ev, markProcessed (ev_id ev) st)"
      by (simp add: processEvent_def Let_def)
    with m [of "ev_id ev" st] show ?thesis by simp
  next
    case nouser
    then have "processEvent m now ev st = (Inr [], ev, markProcessed (ev_id ev) st)"
      by (simp add: processEvent_def Let_def)
    with m [of "ev_id ev" st] show ?thesis by simp
  next
    case loop
    obtain e1 t1 ev1 s1 where p1: "processCampaigns m now user ?cs ([], ev, st) = (e1, t1, ev1, s1)"
      by (cases "processCampaigns m now user ?cs ([], ev, st)") auto
    from assms have "\<forall>c \<in> set ?cs. JNull \<notin> snd ` set (c_conditions c)" by auto
    from processCampaigns_no_null [OF this, of m now user "[]" ev st] p1 have e1: "e1 = None" by simp
    from processCampaigns_eventUpdates [of m now user ?cs "[]" ev st] p1
    have u1: "eventUpdates s1 = eventUpdates st" by simp
    from loop p1 e1 have "processEvent m now ev st = (Inr t1, ev1, markProcessed (ev_id ev) s1)"
      by (simp add: processEvent_def Let_def)
    with m [of "ev_id ev" s1] u1 show ?thesis by simp
  qed
qed








section \<open>Properties of the matcher: entries and deliveries\<close>

lemma entriesMatch_fire:
  assumes m: "entriesMatch trig ev st"
  shows "entriesMatch (trig @ [c])
           (fst (addTriggeredCampaign now (c_id c) s t ev st))
           (snd (scheduleEmail r e now c (fst (addTriggeredCampaign now (c_id c) s t ev st)) u t
                  (snd (addTriggeredCampaign now (c_id c) s t ev st))))"
proof -
  let ?a = "addTriggeredCampaign now (c_id c) s t ev st"
  let ?st2 = "snd (scheduleEmail r e now c (fst ?a) u t (snd ?a))"
  have id: "ev_id (fst ?a) = ev_id ev" by (simp add: addTriggeredCampaign_effect)
  have ev: "events ?st2 = events (snd ?a)"
    using scheduleEmail_sameEvents [of "snd ?a" r e now c "fst ?a" u t] by (simp add: sameEvents_def)
  from m have m1: "map tc_campaignId (ev_triggeredCampaigns ev) = map c_id trig"
    and m2: "\<forall>d \<in> set (events st). ev_id d = ev_id ev \<longrightarrow>
             map tc_campaignId (ev_triggeredCampaigns d) = map c_id trig"
    by (simp_all add: entriesMatch_def)
  from m1 have a: "map tc_campaignId (ev_triggeredCampaigns (fst ?a)) = map c_id (trig @ [c])"
    by (simp add: addTriggeredCampaign_effect)
  have b: "map tc_campaignId (ev_triggeredCampaigns d) = map c_id (trig @ [c])"
    if "d \<in> set (events ?st2)" and "ev_id d = ev_id ev" for d
  proof -
    from that(1) have "d \<in> set (events (snd ?a))" by (simp only: ev)
    then obtain x where x: "x \<in> set (events st)"
      and dx: "d = (if ev_id x = ev_id ev
                 then x\<lparr>ev_triggeredCampaigns := ev_triggeredCampaigns x
                        @ [\<lparr>tc_campaignId = c_id c, tc_processedAt = now, tc_status = s, tc_scheduledFor = t\<rparr>]\<rparr>
                 else x)"
      unfolding addTriggeredCampaign_effect(3) by fastforce
    show ?thesis
    proof (cases "ev_id x = ev_id ev")
      case True
      with m2 x have "map tc_campaignId (ev_triggeredCampaigns x) = map c_id trig" by blast
      with dx True show ?thesis by simp
    next
      case False
      with dx that(2) show ?thesis by simp
    qed
  qed
  from a b show ?thesis
    unfolding entriesMatch_def id by blast
qed

lemma processCampaigns_entriesMatch:
  assumes "distinct (map c_id (trig @ cs))" and "entriesMatch trig ev st"
  shows "\<exists>err trig' ev' st'. processCampaigns m now user cs (trig, ev, st) = (err, trig', ev', st')
     \<and> ev_id ev' = ev_id ev \<and> distinct (map c_id trig') \<and> entriesMatch trig' ev' st'"
  using assms
proof (induction cs arbitrary: trig ev st)
  case Nil
  then show ?case by simp
next
  case (Cons c cs)
  let ?t = "ev_timestamp ev + c_delay c * 1000"
  let ?a = "addTriggeredCampaign now (c_id c) TriggeredScheduled ?t ev st"
  let ?s = "scheduleEmail (rt_replaceAll m) (rt_env m) now c (fst ?a) user ?t (snd ?a)"
  let ?mc = "matchesConditions (rt_le m) (rt_ge m) (c_conditions c) (eventValue ev)"
  from Cons.prems(1) have d0: "distinct (map c_id (trig @ cs))" and d1: "distinct (map c_id ((trig @ [c]) @ cs))"
    and n: "c_id c \<notin> set (map c_id trig)" and dt: "distinct (map c_id trig)"
    by auto
  consider (skip) "\<not> isDateActive now c \<or> \<not> shouldSendToUser c (ev_userId ev) \<or> ?mc = Inr False"
    | (raise) err where "isDateActive now c" "shouldSendToUser c (ev_userId ev)" "?mc = Inl err"
    | (fire) "isDateActive now c" "shouldSendToUser c (ev_userId ev)" "?mc = Inr True"
    by (cases ?mc) auto
  then show ?case
  proof cases
    case skip
    with Cons.IH [OF d0 Cons.prems(2), of ] show ?thesis by auto
  next
    case raise
    with Cons.prems(2) dt show ?thesis by simp
  next
    case fire
    have id: "ev_id (fst ?a) = ev_id ev" by (simp add: addTriggeredCampaign_effect)
    note f = entriesMatch_fire [OF Cons.prems(2), where c = c and now = now and s = TriggeredScheduled
        and t = "?t" and r = "rt_replaceAll m" and e = "rt_env m" and u = user]
    from Cons.IH [OF d1 f] fire id show ?thesis
      by (simp add: Let_def)
  qed
qed


lemma markProcessed_entries:
  "d \<in> set (events (markProcessed i s)) \<Longrightarrow>
   \<exists>x \<in> set (events s). ev_id d = ev_id x \<and> ev_triggeredCampaigns d = ev_triggeredCampaigns x"
proof -
  assume "d \<in> set (events (markProcessed i s))"
  then obtain x where x: "x \<in> set (events s)"
    and dx: "d = (if ev_id x = i then x\<lparr>ev_processed := True\<rparr> else x)"
    unfolding markProcessed_def by fastforce
  from dx have "ev_id d = ev_id x \<and> ev_triggeredCampaigns d = ev_triggeredCampaigns x"
    by (cases "ev_id x = i") simp_all
  with x show ?thesis by blast
qed

lemma findUnprocessedEvents_unprocessed:
  "d \<in> set (findUnprocessedEvents n st) \<Longrightarrow> d \<in> set (events st) \<and> \<not> ev_processed d"
  using set_limitTo [of n "sort_key ev_timestamp (filter (\<lambda>ev. \<not> ev_processed ev) (events st))"]
  by (auto simp: findUnprocessedEvents_def)

lemma finalized_is_not_swept:
  "ev_id ev \<notin> set (map ev_id (findUnprocessedEvents n (markProcessed (ev_id ev) s)))"
proof
  assume "ev_id ev \<in> set (map ev_id (findUnprocessedEvents n (markProcessed (ev_id ev) s)))"
  then obtain d where d: "d \<in> set (findUnprocessedEvents n (markProcessed (ev_id ev) s))"
    and i: "ev_id d = ev_id ev" by auto
  from findUnprocessedEvents_unprocessed [OF d]
  have "d \<in> set (events (markProcessed (ev_id ev) s))" and "\<not> ev_processed d" by blast+
  with markProcessed_processed [of d "ev_id ev" s] i show False by blast
qed

lemma entriesMatch_distinct:
  assumes "entriesMatch trig ev' s" and "distinct (map c_id trig)" and "ev_id ev' = ev_id ev"
  shows "distinct (map tc_campaignId (ev_triggeredCampaigns ev'))
     \<and> (\<forall>d \<in> set (events (markProcessed i s)). ev_id d = ev_id ev \<longrightarrow>
           distinct (map tc_campaignId (ev_triggeredCampaigns d)))
     \<and> (\<forall>d \<in> set (events s). ev_id d = ev_id ev \<longrightarrow>
           distinct (map tc_campaignId (ev_triggeredCampaigns d)))"
proof -
  from assms have a: "map tc_campaignId (ev_triggeredCampaigns ev') = map c_id trig"
    and b: "\<forall>d \<in> set (events s). ev_id d = ev_id ev \<longrightarrow>
             map tc_campaignId (ev_triggeredCampaigns d) = map c_id trig"
    by (simp_all add: entriesMatch_def)
  from a assms(2) have 1: "distinct (map tc_campaignId (ev_triggeredCampaigns ev'))" by simp
  from b assms(2) have 3: "\<forall>d \<in> set (events s). ev_id d = ev_id ev \<longrightarrow>
           distinct (map tc_campaignId (ev_triggeredCampaigns d))" by simp
  have 2: "\<forall>d \<in> set (events (markProcessed i s)). ev_id d = ev_id ev \<longrightarrow>
           distinct (map tc_campaignId (ev_triggeredCampaigns d))"
  proof (intro ballI impI)
    fix d assume "d \<in> set (events (markProcessed i s))" and i: "ev_id d = ev_id ev"
    from markProcessed_entries [OF this(1)] obtain x where "x \<in> set (events s)"
      and "ev_id d = ev_id x" and "ev_triggeredCampaigns d = ev_triggeredCampaigns x" by blast
    with 3 i show "distinct (map tc_campaignId (ev_triggeredCampaigns d))" by simp
  qed
  from 1 2 3 show ?thesis by blast
qed

lemma one_run_entries:
  assumes "distinct (map c_id (campaigns st))"
    and "ev_triggeredCampaigns ev = []"
    and "\<forall>d \<in> set (events st). ev_id d = ev_id ev \<longrightarrow> ev_triggeredCampaigns d = []"
  shows "distinct (map tc_campaignId (ev_triggeredCampaigns (fst (snd (processEvent m now ev st)))))
     \<and> (\<forall>d \<in> set (events (snd (snd (processEvent m now ev st)))). ev_id d = ev_id ev \<longrightarrow>
           distinct (map tc_campaignId (ev_triggeredCampaigns d)))"
proof -
  let ?cs = "filter (\<lambda>c. c_triggerEvent c = ev_eventType ev \<and> c_status c = Active) (campaigns st)"
  from assms(2,3) have start: "entriesMatch [] ev st"
    by (simp add: entriesMatch_def)
  from assms(1) have dcs: "distinct (map c_id ([] @ ?cs))"
    by (simp add: distinct_map_filter)
  consider (none) "?cs = []"
    | (nouser) "?cs \<noteq> []" "find (\<lambda>u. u_id u = ev_userId ev) (users st) = None"
    | (loop) user where "?cs \<noteq> []" "find (\<lambda>u. u_id u = ev_userId ev) (users st) = Some user"
    by (cases "find (\<lambda>u. u_id u = ev_userId ev) (users st)") auto
  then show ?thesis
  proof cases
    case none
    then have p: "processEvent m now ev st = (Inr [], ev, markProcessed (ev_id ev) st)"
      by (simp add: processEvent_def Let_def)
    from entriesMatch_distinct [OF start, of ev "ev_id ev"]
    show ?thesis unfolding p by simp
  next
    case nouser
    then have p: "processEvent m now ev st = (Inr [], ev, markProcessed (ev_id ev) st)"
      by (simp add: processEvent_def Let_def)
    from entriesMatch_distinct [OF start, of ev "ev_id ev"]
    show ?thesis unfolding p by simp
  next
    case loop
    from processCampaigns_entriesMatch [OF dcs start, of m now user]
    obtain err trig' ev' st' where p1: "processCampaigns m now user ?cs ([], ev, st) = (err, trig', ev', st')"
      and i: "ev_id ev' = ev_id ev" and d: "distinct (map c_id trig')" and e: "entriesMatch trig' ev' st'"
      by blast
    note r = entriesMatch_distinct [OF e d i, of "ev_id ev"]
    show ?thesis
    proof (cases err)
      case None
      with loop p1 have p: "processEvent m now ev st = (Inr trig', ev', markProcessed (ev_id ev) st')"
        by (simp add: processEvent_def Let_def)
      from r show ?thesis unfolding p by simp
    next
      case (Some x)
      with loop p1 have p: "processEvent m now ev st = (Inl x, ev', st')"
        by (simp add: processEvent_def Let_def)
      from r show ?thesis unfolding p by simp
    qed
  qed
qed

lemma returned_run_is_not_swept:
  assumes "fst (processEvent m now ev st) = Inr triggeredCampaigns"
  shows "ev_id ev \<notin> set (map ev_id (findUnprocessedEvents n (snd (snd (processEvent m now ev st)))))"
proof -
  let ?cs = "filter (\<lambda>c. c_triggerEvent c = ev_eventType ev \<and> c_status c = Active) (campaigns st)"
  consider (none) "?cs = []"
    | (nouser) "?cs \<noteq> []" "find (\<lambda>u. u_id u = ev_userId ev) (users st) = None"
    | (loop) user where "?cs \<noteq> []" "find (\<lambda>u. u_id u = ev_userId ev) (users st) = Some user"
    by (cases "find (\<lambda>u. u_id u = ev_userId ev) (users st)") auto
  then show ?thesis
  proof cases
    case none
    then have p: "processEvent m now ev st = (Inr [], ev, markProcessed (ev_id ev) st)"
      by (simp add: processEvent_def Let_def)
    from finalized_is_not_swept [of ev n st] show ?thesis unfolding p by simp
  next
    case nouser
    then have p: "processEvent m now ev st = (Inr [], ev, markProcessed (ev_id ev) st)"
      by (simp add: processEvent_def Let_def)
    from finalized_is_not_swept [of ev n st] show ?thesis unfolding p by simp
  next
    case loop
    obtain err trig' ev' st' where p1: "processCampaigns m now user ?cs ([], ev, st) = (err, trig', ev', st')"
      by (cases "processCampaigns m now user ?cs ([], ev, st)") auto
    show ?thesis
    proof (cases err)
      case None
      with loop p1 have p: "processEvent m now ev st = (Inr trig', ev', markProcessed (ev_id ev) st')"
        by (simp add: processEvent_def Let_def)
      from finalized_is_not_swept [of ev n st'] show ?thesis unfolding p by simp
    next
      case (Some x)
      with loop p1 have "processEvent m now ev st = (Inl x, ev', st')"
        by (simp add: processEvent_def Let_def)
      with assms show ?thesis by simp
    qed
  qed
qed

lemma processCampaigns_emails:
  "emails (snd (snd (snd (processCampaigns m now user cs (trig, ev, st))))) = emails st"
proof (induction cs arbitrary: trig ev st)
  case Nil
  then show ?case by simp
next
  case (Cons c cs)
  show ?case
    by (simp add: Cons.IH addTriggeredCampaign_effect(2) scheduleEmail_emails Let_def split: sum.splits)
qed

lemma processEvent_emails: "emails (snd (snd (processEvent m now ev st))) = emails st"
proof -
  let ?cs = "filter (\<lambda>c. c_triggerEvent c = ev_eventType ev \<and> c_status c = Active) (campaigns st)"
  have mp: "emails (markProcessed i s) = emails s" for i s
    by (simp add: markProcessed_def)
  consider (none) "?cs = []"
    | (nouser) "?cs \<noteq> []" "find (\<lambda>u. u_id u = ev_userId ev) (users st) = None"
    | (loop) user where "?cs \<noteq> []" "find (\<lambda>u. u_id u = ev_userId ev) (users st) = Some user"
    by (cases "find (\<lambda>u. u_id u = ev_userId ev) (users st)") auto
  then show ?thesis
  proof cases
    case none
    then show ?thesis by (simp add: processEvent_def Let_def mp)
  next
    case nouser
    then show ?thesis by (simp add: processEvent_def Let_def mp)
  next
    case loop
    obtain err trig' ev' st' where p1: "processCampaigns m now user ?cs ([], ev, st) = (err, trig', ev', st')"
      by (cases "processCampaigns m now user ?cs ([], ev, st)") auto
    from processCampaigns_emails [of m now user ?cs "[]" ev st] p1 have "emails st' = emails st" by simp
    with loop p1 show ?thesis by (cases err) (simp_all add: processEvent_def Let_def mp)
  qed
qed

lemma sweepEvents_emails: "emails (snd (sweepEvents m now evs (k, st))) = emails st"
proof (induction evs arbitrary: k st)
  case Nil
  then show ?case by simp
next
  case (Cons event evs)
  obtain r ev' st' where p: "processEvent m now event st = (r, ev', st')"
    by (cases "processEvent m now event st") auto
  from processEvent_emails [of m now event st] p have "emails st' = emails st" by simp
  with Cons.IH p show ?case by (cases r) simp_all
qed

lemma processUnprocessedEvents_emails:
  "emails (snd (processUnprocessedEvents m now n st)) = emails st"
  by (simp add: processUnprocessedEvents_def Let_def sweepEvents_emails)

lemma afterRuns_emails: "emails (afterRuns m rs st) = emails st"
  by (induction m rs st rule: afterRuns.induct)
     (simp_all add: processEvent_emails processUnprocessedEvents_emails)

text \<open>
  C6, as stated, fails. The sweep has read the unprocessed event; the dispatch
  that follows the ingestion runs the matcher on it; the sweep then runs the
  matcher on the event it has read. The stored event has two entries for the
  campaign. No delivery is stored.
\<close>

theorem matcher_twice_counterexample:
  "findUnprocessedEvents 100 matcherStore = [event1]
   \<and> map (map tc_campaignId \<circ> ev_triggeredCampaigns)
        (events (snd (sweepEvents runtime1 5001 (findUnprocessedEvents 100 matcherStore)
           (0, snd (snd (processEvent runtime1 5000 event1 matcherStore))))))
     = [[''c1'', ''c1'']]
   \<and> emails (snd (sweepEvents runtime1 5001 (findUnprocessedEvents 100 matcherStore)
           (0, snd (snd (processEvent runtime1 5000 event1 matcherStore)))))
     = []"
  by code_simp

text \<open>
  C6, amended. A run of the matcher appends one entry per candidate campaign
  that passes the filters; nothing looks for an entry that is already there.
  So one run over an event that has no entry yet, with campaigns of distinct
  ids, leaves at most one entry per campaign id, in memory and in the store;
  and when the run returns, the event is processed, so that the query of a
  later sweep does not return it. The deliveries are the same after any
  sequence of runs of the matcher and of the sweep as before it, so that at
  most one delivery exists per pair of event and campaign after the runs when
  that was so before them.
\<close>

theorem one_matcher_run_adds_one_entry_per_campaign:
  "(distinct (map c_id (campaigns st)) \<and> ev_triggeredCampaigns ev = []
      \<and> (\<forall>d \<in> set (events st). ev_id d = ev_id ev \<longrightarrow> ev_triggeredCampaigns d = [])
     \<longrightarrow> distinct (map tc_campaignId (ev_triggeredCampaigns (fst (snd (processEvent m now ev st)))))
        \<and> (\<forall>d \<in> set (events (snd (snd (processEvent m now ev st)))). ev_id d = ev_id ev \<longrightarrow>
              distinct (map tc_campaignId (ev_triggeredCampaigns d))))
   \<and> ((\<exists>triggeredCampaigns. fst (processEvent m now ev st) = Inr triggeredCampaigns) \<longrightarrow>
        ev_id ev \<notin> set (map ev_id (findUnprocessedEvents n (snd (snd (processEvent m now ev st))))))
   \<and> emails (afterRuns m rs st) = emails st
   \<and> atMostOneDelivery (afterRuns m rs st) = atMostOneDelivery st"
proof -
  have a: "distinct (map c_id (campaigns st)) \<and> ev_triggeredCampaigns ev = []
      \<and> (\<forall>d \<in> set (events st). ev_id d = ev_id ev \<longrightarrow> ev_triggeredCampaigns d = [])
     \<longrightarrow> distinct (map tc_campaignId (ev_triggeredCampaigns (fst (snd (processEvent m now ev st)))))
        \<and> (\<forall>d \<in> set (events (snd (snd (processEvent m now ev st)))). ev_id d = ev_id ev \<longrightarrow>
              distinct (map tc_campaignId (ev_triggeredCampaigns d)))"
  proof
    assume h: "distinct (map c_id (campaigns st)) \<and> ev_triggeredCampaigns ev = []
      \<and> (\<forall>d \<in> set (events st). ev_id d = ev_id ev \<longrightarrow> ev_triggeredCampaigns d = [])"
    then have h1: "distinct (map c_id (campaigns st))" and h2: "ev_triggeredCampaigns ev = []"
      and h3: "\<forall>d \<in> set (events st). ev_id d = ev_id ev \<longrightarrow> ev_triggeredCampaigns d = []"
      by blast+
    show "distinct (map tc_campaignId (ev_triggeredCampaigns (fst (snd (processEvent m now ev st)))))
        \<and> (\<forall>d \<in> set (events (snd (snd (processEvent m now ev st)))). ev_id d = ev_id ev \<longrightarrow>
              distinct (map tc_campaignId (ev_triggeredCampaigns d)))"
      by (rule one_run_entries [OF h1 h2 h3])
  qed
  have b: "(\<exists>triggeredCampaigns. fst (processEvent m now ev st) = Inr triggeredCampaigns) \<longrightarrow>
        ev_id ev \<notin> set (map ev_id (findUnprocessedEvents n (snd (snd (processEvent m now ev st)))))"
    using returned_run_is_not_swept [of m now ev st _ n] by blast
  have c: "emails (afterRuns m rs st) = emails st" by (rule afterRuns_emails)
  then have d: "atMostOneDelivery (afterRuns m rs st) = atMostOneDelivery st"
    by (simp add: atMostOneDelivery_def)
  show ?thesis by (intro conjI a b c d)
qed

theorem one_matcher_run_adds_one_entry_per_campaign_witness:
  "distinct (map tc_campaignId (ev_triggeredCampaigns (fst (snd (processEvent runtime1 5000 event1 matcherStore)))))
   \<and> ev_id event1 \<notin> set (map ev_id (findUnprocessedEvents 100 (snd (snd (processEvent runtime1 5000 event1 matcherStore)))))
   \<and> map (map tc_campaignId \<circ> ev_triggeredCampaigns) (events (snd (snd (processEvent runtime1 5000 event1 matcherStore))))
       = [[''c1'']]
   \<and> emails (afterRuns runtime1 [MatcherRun 5000 event1, SweepRun 5001 100, MatcherRun 5002 event1] matcherStore) = []
   \<and> atMostOneDelivery (afterRuns runtime1 [MatcherRun 5000 event1, SweepRun 5001 100, MatcherRun 5002 event1] matcherStore)"
proof -
  have 1: "distinct (map c_id (campaigns matcherStore))" by (simp add: matcherStore_def)
  have 2: "ev_triggeredCampaigns event1 = []" by (simp add: event1_def)
  have 3: "\<forall>d \<in> set (events matcherStore). ev_id d = ev_id event1 \<longrightarrow> ev_triggeredCampaigns d = []"
    by (simp add: matcherStore_def event1_def)
  note t = one_matcher_run_adds_one_entry_per_campaign
    [where m = runtime1 and now = 5000 and ev = event1 and st = matcherStore and n = 100
       and rs = "[MatcherRun 5000 event1, SweepRun 5001 100, MatcherRun 5002 event1]"]
  have r: "\<exists>triggeredCampaigns. fst (processEvent runtime1 5000 event1 matcherStore) = Inr triggeredCampaigns"
    using processEvent_finalizes [where st = matcherStore and ev = event1 and m = runtime1 and now = 5000]
    by (simp add: matcherStore_def campaign1_def)
  from t 1 2 3 have a: "distinct (map tc_campaignId
      (ev_triggeredCampaigns (fst (snd (processEvent runtime1 5000 event1 matcherStore)))))"
    by blast
  from t r have b: "ev_id event1 \<notin> set (map ev_id
      (findUnprocessedEvents 100 (snd (snd (processEvent runtime1 5000 event1 matcherStore)))))"
    by blast
  have v: "map (map tc_campaignId \<circ> ev_triggeredCampaigns) (events (snd (snd (processEvent runtime1 5000 event1 matcherStore))))
       = [[''c1'']]"
    by code_simp
  from t have e: "emails (afterRuns runtime1 [MatcherRun 5000 event1, SweepRun 5001 100, MatcherRun 5002 event1]
      matcherStore) = emails matcherStore"
    and f: "atMostOneDelivery (afterRuns runtime1 [MatcherRun 5000 event1, SweepRun 5001 100, MatcherRun 5002 event1]
      matcherStore) = atMostOneDelivery matcherStore"
    by blast+
  from e have c: "emails (afterRuns runtime1 [MatcherRun 5000 event1, SweepRun 5001 100, MatcherRun 5002 event1]
      matcherStore) = []"
    by (simp add: matcherStore_def)
  from f have d: "atMostOneDelivery (afterRuns runtime1 [MatcherRun 5000 event1, SweepRun 5001 100, MatcherRun 5002 event1]
      matcherStore)"
    by (simp add: atMostOneDelivery_def matcherStore_def)
  show ?thesis by (intro conjI a b v c d)
qed

section \<open>Properties of the tracking instrumentor\<close>

lemma quoted_hit:
  "q \<notin> set u \<Longrightarrow> \<forall>c \<in> set u. \<not> is_line_terminator c \<Longrightarrow> quoted q (u @ q # rest) = Some (u, rest)"
  by (induction u) auto

lemma space_line_terminator: "is_line_terminator c \<Longrightarrow> is_space c"
  by (auto simp: is_line_terminator_def is_space_def)

lemma hrefHere_hit:
  assumes "CHR 0x22 \<notin> set u" and "\<forall>c \<in> set u. \<not> is_space c"
  shows "hrefHere (''href=\"'' @ u @ CHR 0x22 # rest) = Some (u, rest)"
proof -
  from assms(2) have "\<forall>c \<in> set u. \<not> is_line_terminator c"
    using space_line_terminator by blast
  from quoted_hit [OF assms(1) this] show ?thesis by (simp add: hrefHere_def)
qed

lemma laterHref_none:
  "\<forall>c \<in> set w. \<not> is_space c \<Longrightarrow> laterHref (w @ CHR ''>'' # rest) = None"
  by (induction w) auto

lemma laterHref_none_quote:
  assumes "\<forall>c \<in> set u. \<not> is_space c"
  shows "laterHref (u @ CHR 0x22 # CHR ''>'' # rest) = None"
proof -
  from assms have "\<forall>c \<in> set (u @ [CHR 0x22]). \<not> is_space c" by (simp add: is_space_def)
  from laterHref_none [OF this, of rest] show ?thesis by simp
qed

lemma matchHere_anchor:
  assumes "CHR 0x22 \<notin> set u" and "\<forall>c \<in> set u. \<not> is_space c"
  shows "matchHere (''<a href=\"'' @ u @ ''\">'' @ rest) = Some (u, CHR ''>'' # rest)"
proof -
  from assms(2) have "\<forall>c \<in> set u. \<not> is_line_terminator c"
    using space_line_terminator by blast
  from quoted_hit [OF assms(1) this, of "CHR ''>'' # rest"] laterHref_none_quote [OF assms(2), of rest]
  show ?thesis by (simp add: matchHere_def is_space_def hrefHere_def)
qed

lemma matchHere_other: "c \<noteq> CHR ''<'' \<Longrightarrow> matchHere (c # cs) = None"
  by (simp add: matchHere_def split: list.splits)

lemma execAll_Nil: "execAll [] = []"
  by (simp add: execAll.simps)

lemma execAll_skip: "CHR ''<'' \<notin> set t \<Longrightarrow> execAll (t @ rest) = execAll rest"
proof (induction t)
  case Nil
  then show ?case by simp
next
  case (Cons c t)
  then have "matchHere (c # t @ rest) = None" by (intro matchHere_other) auto
  then have "execAll ((c # t) @ rest) = execAll (t @ rest)"
    by (subst execAll.simps) simp
  with Cons show ?case by simp
qed

lemma execAll_closing: "execAll (''</a>'' @ rest) = execAll rest"
proof -
  have "matchHere (''</a>'' @ rest) = None" by (simp add: matchHere_def)
  then have "execAll (''</a>'' @ rest) = execAll (''/a>'' @ rest)"
    by (subst execAll.simps) simp
  also have "\<dots> = execAll rest" by (rule execAll_skip) simp
  finally show ?thesis .
qed

lemma execAll_anchor:
  assumes "CHR 0x22 \<notin> set u" and "\<forall>c \<in> set u. \<not> is_space c"
  shows "execAll (''<a href=\"'' @ u @ ''\">'' @ rest) = u # execAll (CHR ''>'' # rest)"
  using matchHere_anchor [OF assms, of rest] by (subst execAll.simps) simp

lemma execAll_two_anchors:
  assumes "CHR 0x22 \<notin> set u" and "\<forall>c \<in> set u. \<not> is_space c"
    and "CHR ''<'' \<notin> set t1" and "CHR ''<'' \<notin> set t2"
  shows "execAll (''<a href=\"'' @ u @ ''\">'' @ t1 @ ''</a><a href=\"'' @ u @ ''\">'' @ t2 @ ''</a>'') = [u, u]"
proof -
  have "execAll (CHR ''>'' # t2 @ ''</a>'') = execAll (''</a>'' @ [])"
    using execAll_skip [of "CHR ''>'' # t2" "''</a>''"] assms(4) by simp
  also have "\<dots> = []" by (simp only: execAll_closing execAll_Nil)
  finally have e2: "execAll (CHR ''>'' # t2 @ ''</a>'') = []" .
  have "execAll (CHR ''>'' # t1 @ ''</a><a href=\"'' @ u @ ''\">'' @ t2 @ ''</a>'')
      = execAll (''</a>'' @ ''<a href=\"'' @ u @ ''\">'' @ t2 @ ''</a>'')"
    using execAll_skip [of "CHR ''>'' # t1" "''</a><a href=\"'' @ u @ ''\">'' @ t2 @ ''</a>''"] assms(3) by simp
  also have "\<dots> = execAll (''<a href=\"'' @ u @ ''\">'' @ t2 @ ''</a>'')" by (rule execAll_closing)
  also have "\<dots> = u # execAll (CHR ''>'' # t2 @ ''</a>'')" by (rule execAll_anchor [OF assms(1,2)])
  finally have e1: "execAll (CHR ''>'' # t1 @ ''</a><a href=\"'' @ u @ ''\">'' @ t2 @ ''</a>'') = [u]"
    using e2 by simp
  from execAll_anchor [OF assms(1,2), of "t1 @ ''</a><a href=\"'' @ u @ ''\">'' @ t2 @ ''</a>''"] e1
  show ?thesis by simp
qed


lemma first_occurrence_unique:
  "q \<notin> set a \<Longrightarrow> q \<notin> set b \<Longrightarrow> a @ q # x = b @ q # y \<Longrightarrow> a = b \<and> x = y"
proof (induction a arbitrary: b)
  case Nil
  then show ?case by (cases b) auto
next
  case (Cons c a)
  then show ?case by (cases b) auto
qed

lemma take_is_prefix: "take (length p) s = p \<longleftrightarrow> (\<exists>t. s = p @ t)"
  by (metis append_eq_conv_conj append_take_drop_id)

lemma splitAt_here: "p \<noteq> [] \<Longrightarrow> splitAt p (p @ r) = Some ([], r)"
  by (cases p) simp_all

lemma splitAt_next:
  "\<not> (\<exists>t. c # cs = p @ t) \<Longrightarrow>
   splitAt p (c # cs) = (case splitAt p cs of None \<Rightarrow> None | Some (pre, post) \<Rightarrow> Some (c # pre, post))"
  using take_is_prefix [of p "c # cs"] by simp

text \<open>The pattern \<open>A @ q # w\<close>, with no \<open>q\<close> in \<open>A\<close>, in a text in which \<open>q\<close> first stands after \<open>pre @ A\<close>.\<close>

lemma splitAt_hit:
  assumes "q \<notin> set pre" and "q \<notin> set A"
  shows "splitAt (A @ q # w) (pre @ A @ q # w @ R) = Some (pre, R)"
  using assms(1)
proof (induction pre)
  case Nil
  from splitAt_here [of "A @ q # w" R] show ?case by simp
next
  case (Cons c pre)
  have "\<not> (\<exists>t. c # pre @ A @ q # w @ R = (A @ q # w) @ t)"
  proof
    assume "\<exists>t. c # pre @ A @ q # w @ R = (A @ q # w) @ t"
    then obtain t where "(c # pre @ A) @ q # (w @ R) = A @ q # (w @ t)" by auto
    from first_occurrence_unique [OF _ assms(2) this] Cons.prems assms(2)
    have "c # pre @ A = A" by simp
    then have "length (c # pre @ A) = length A" by simp
    then show False by simp
  qed
  from splitAt_next [OF this] Cons show ?case by simp
qed

lemma splitAt_miss:
  assumes "q \<notin> set A" and "A \<noteq> []"
  shows "q \<notin> set seg \<Longrightarrow> \<not> (\<exists>p t. seg = p @ A \<and> R = w @ t) \<Longrightarrow>
    splitAt (A @ q # w) (seg @ q # R)
      = (case splitAt (A @ q # w) R of None \<Rightarrow> None | Some (pre, post) \<Rightarrow> Some (seg @ q # pre, post))"
proof (induction seg)
  case Nil
  have "\<not> (\<exists>t. q # R = (A @ q # w) @ t)"
  proof
    assume "\<exists>t. q # R = (A @ q # w) @ t"
    with assms show False by (cases A) auto
  qed
  from splitAt_next [OF this] show ?case by (simp split: option.splits)
next
  case (Cons c seg)
  have "\<not> (\<exists>t. c # seg @ q # R = (A @ q # w) @ t)"
  proof
    assume "\<exists>t. c # seg @ q # R = (A @ q # w) @ t"
    then obtain t where "(c # seg) @ q # R = A @ q # (w @ t)" by auto
    from first_occurrence_unique [OF _ assms(1) this] Cons.prems(1)
    have "c # seg = A" and "R = w @ t" by simp_all
    then have "c # seg = [] @ A \<and> R = w @ t" by simp
    with Cons.prems(2) show False by blast
  qed
  note n = splitAt_next [OF this]
  from Cons.prems(2) have "\<not> (\<exists>p t. seg = p @ A \<and> R = w @ t)"
    by (metis append_Cons)
  with Cons.IH Cons.prems(1) have "splitAt (A @ q # w) (seg @ q # R)
      = (case splitAt (A @ q # w) R of None \<Rightarrow> None | Some (pre, post) \<Rightarrow> Some (seg @ q # pre, post))"
    by simp
  with n show ?case by (simp split: option.splits)
qed

lemma getSubstitution_plain:
  "CHR ''$'' \<notin> set r \<Longrightarrow> getSubstitution m pre post r = r"
  by (induction m pre post r rule: getSubstitution.induct) auto

lemma jsReplace_at:
  "splitAt p s = Some (pre, post) \<Longrightarrow> CHR ''$'' \<notin> set r \<Longrightarrow> jsReplace s p r = pre @ r @ post"
  by (simp add: jsReplace_def getSubstitution_plain)


lemma decimal_small: "decimal 0 = ''0''" "decimal (Suc 0) = ''1''"
  by (simp_all add: decimal.simps digitChar_def)

text \<open>
  C4, amended. A body made of two anchors with the same double-quoted URL
  \<open>u\<close> (a URL that qualifies, without white space or double quote, and
  that is not the first click URL itself), with anchor texts \<open>t1\<close> and
  \<open>t2\<close> that hold no opening angle bracket (and \<open>t1\<close> no double quote),
  instrumented with a tracking id and a base URL that hold no double quote
  and no dollar sign: the first anchor is rewritten to the click URL of index
  0, the second to the click URL of index 1, and the registry gets two entries
  for \<open>u\<close>, one per anchor.
\<close>

theorem identical_anchors_get_consecutive_indices:
  assumes q: "qualifies u" and sp: "\<forall>c \<in> set u. \<not> is_space c" and uq: "CHR 0x22 \<notin> set u"
    and t1: "CHR ''<'' \<notin> set t1" and t1q: "CHR 0x22 \<notin> set t1"
    and t2: "CHR ''<'' \<notin> set t2"
    and bq: "CHR 0x22 \<notin> set (base @ tid)" and bd: "CHR ''$'' \<notin> set (base @ tid)"
    and ne: "u \<noteq> clickUrl base tid 0"
  shows "addTracking (''<a href=\"'' @ u @ ''\">'' @ t1 @ ''</a><a href=\"'' @ u @ ''\">'' @ t2 @ ''</a>'') tid base
     = (''<a href=\"'' @ clickUrl base tid 0 @ ''\">'' @ t1 @ ''</a><a href=\"'' @ clickUrl base tid 1 @ ''\">''
           @ t2 @ ''</a>'' @ trackingPixel base tid,
        [\<lparr>original = u, tracking = clickUrl base tid 0, clicks = 0, lastClickedAt = None\<rparr>,
         \<lparr>original = u, tracking = clickUrl base tid 1, clicks = 0, lastClickedAt = None\<rparr>])"
proof -
  let ?q = "CHR 0x22"
  let ?A = "''href=''"
  let ?P = "\<lambda>x. ?A @ ?q # x @ [?q]"
  let ?T0 = "clickUrl base tid 0"
  let ?T1 = "clickUrl base tid (Suc 0)"
  let ?px = "trackingPixel base tid"
  let ?R2 = "CHR ''>'' # t2 @ ''</a>'' @ ?px"
  let ?R1 = "CHR ''>'' # t1 @ ''</a><a href='' @ ?q # u @ ?q # ?R2"
  let ?html = "''<a href=\"'' @ u @ ''\">'' @ t1 @ ''</a><a href=\"'' @ u @ ''\">'' @ t2 @ ''</a>''"
  have T0: "?T0 = base @ ''/track/click/'' @ tid @ ''/0''" and T1: "?T1 = base @ ''/track/click/'' @ tid @ ''/1''"
    by (simp_all add: clickUrl_def decimal_small)
  from bq have T0q: "?q \<notin> set ?T0" by (simp add: T0)
  from bd have d0: "CHR ''$'' \<notin> set (?P ?T0)" and d1: "CHR ''$'' \<notin> set (?P ?T1)"
    by (simp_all add: T0 T1)
  have ex: "execAll ?html = [u, u]" by (rule execAll_two_anchors [OF uq sp t1 t2])
  \<comment> \<open>the first replacement\<close>
  have "splitAt (?A @ ?q # (u @ [?q])) (''<a '' @ ?A @ ?q # (u @ [?q]) @ ?R1) = Some (''<a '', ?R1)"
    by (rule splitAt_hit) simp_all
  then have s1: "splitAt (?P u) (?html @ ?px) = Some (''<a '', ?R1)" by simp
  have r1: "jsReplace (?html @ ?px) (?P u) (?P ?T0) = ''<a href='' @ ?q # ?T0 @ ?q # ?R1"
    using jsReplace_at [OF s1 d0] by simp
  \<comment> \<open>the second replacement passes the anchor that the first one rewrote\<close>
  have m1: "\<not> (\<exists>p t. ''<a href='' = p @ ?A \<and> ?T0 @ ?q # ?R1 = (u @ [?q]) @ t)"
  proof
    assume "\<exists>p t. ''<a href='' = p @ ?A \<and> ?T0 @ ?q # ?R1 = (u @ [?q]) @ t"
    then obtain t where "?T0 @ ?q # ?R1 = u @ ?q # t" by auto
    from first_occurrence_unique [OF T0q uq this] ne show False by simp
  qed
  have m2: "\<not> (\<exists>p t. ?T0 = p @ ?A \<and> ?R1 = (u @ [?q]) @ t)"
  proof
    assume "\<exists>p t. ?T0 = p @ ?A \<and> ?R1 = (u @ [?q]) @ t"
    then obtain p where "?T0 = p @ ?A" by blast
    then have "last ?T0 = last (p @ ?A)" by simp
    then show False by (simp add: T0)
  qed
  have h: "splitAt (?A @ ?q # (u @ [?q])) ((CHR ''>'' # t1 @ ''</a><a '') @ ?A @ ?q # (u @ [?q]) @ ?R2)
      = Some (CHR ''>'' # t1 @ ''</a><a '', ?R2)"
    using t1q by (intro splitAt_hit) simp_all
  then have h': "splitAt (?A @ ?q # (u @ [?q])) ?R1 = Some (CHR ''>'' # t1 @ ''</a><a '', ?R2)" by simp
  have "splitAt (?A @ ?q # (u @ [?q])) (?T0 @ ?q # ?R1)
      = Some (?T0 @ ?q # CHR ''>'' # t1 @ ''</a><a '', ?R2)"
    using splitAt_miss [of ?q ?A ?T0 ?R1 "u @ [?q]", OF _ _ T0q m2] h' by simp
  then have "splitAt (?A @ ?q # (u @ [?q])) (''<a href='' @ ?q # ?T0 @ ?q # ?R1)
      = Some (''<a href='' @ ?q # ?T0 @ ?q # CHR ''>'' # t1 @ ''</a><a '', ?R2)"
    using splitAt_miss [of ?q ?A "''<a href=''" "?T0 @ ?q # ?R1" "u @ [?q]", OF _ _ _ m1] by simp
  from jsReplace_at [OF this d1]
  have r2: "jsReplace (''<a href='' @ ?q # ?T0 @ ?q # ?R1) (?P u) (?P ?T1)
      = ''<a href=\"'' @ ?T0 @ ''\">'' @ t1 @ ''</a><a href=\"'' @ ?T1 @ ''\">'' @ t2 @ ''</a>'' @ ?px"
    by simp
  have "addTracking ?html tid base
      = trackLinks base tid [u, u] 0 (?html @ ?px, [])"
    by (simp only: addTracking_def ex)
  also have "\<dots> = (jsReplace (jsReplace (?html @ ?px) (?P u) (?P ?T0)) (?P u) (?P ?T1),
        [\<lparr>original = u, tracking = ?T0, clicks = 0, lastClickedAt = None\<rparr>,
         \<lparr>original = u, tracking = ?T1, clicks = 0, lastClickedAt = None\<rparr>])"
    using q by simp
  finally have "addTracking ?html tid base
      = (''<a href=\"'' @ ?T0 @ ''\">'' @ t1 @ ''</a><a href=\"'' @ ?T1 @ ''\">'' @ t2 @ ''</a>'' @ ?px,
        [\<lparr>original = u, tracking = ?T0, clicks = 0, lastClickedAt = None\<rparr>,
         \<lparr>original = u, tracking = ?T1, clicks = 0, lastClickedAt = None\<rparr>])"
    by (simp only: r1 r2)
  then show ?thesis by (simp only: One_nat_def)
qed


theorem identical_anchors_get_consecutive_indices_witness:
  "addTracking ''<a href=\"https://shop.test/p\">One</a><a href=\"https://shop.test/p\">Two</a>'' ''k9'' ''http://t.test''
   = (''<a href=\"http://t.test/track/click/k9/0\">One</a><a href=\"http://t.test/track/click/k9/1\">Two</a><img src=\"http://t.test/track/open/k9\" width=\"1\" height=\"1\" alt=\"\" style=\"display:none;\" />'',
      [\<lparr>original = ''https://shop.test/p'', tracking = ''http://t.test/track/click/k9/0'', clicks = 0, lastClickedAt = None\<rparr>,
       \<lparr>original = ''https://shop.test/p'', tracking = ''http://t.test/track/click/k9/1'', clicks = 0, lastClickedAt = None\<rparr>])"
proof -
  have 1: "qualifies ''https://shop.test/p''" by (simp add: qualifies_def startsWith_def)
  have 2: "\<forall>c \<in> set ''https://shop.test/p''. \<not> is_space c" by (simp add: is_space_def)
  have 3: "CHR 0x22 \<notin> set ''https://shop.test/p''" by simp
  have 4: "CHR ''<'' \<notin> set ''One''" and 5: "CHR 0x22 \<notin> set ''One''" and 6: "CHR ''<'' \<notin> set ''Two''"
    by simp_all
  have 7: "CHR 0x22 \<notin> set (''http://t.test'' @ ''k9'')" and 8: "CHR ''$'' \<notin> set (''http://t.test'' @ ''k9'')"
    by simp_all
  have 9: "''https://shop.test/p'' \<noteq> clickUrl ''http://t.test'' ''k9'' 0" by (simp add: clickUrl_def)
  from identical_anchors_get_consecutive_indices [OF 1 2 3 4 5 6 7 8 9]
  show ?thesis by (simp add: clickUrl_def trackingPixel_def decimal_small)
qed


lemma trackLinks_registry:
  "snd (trackLinks base tid hrefs index (html, links))
   = links @ map (\<lambda>p. \<lparr>original = snd p, tracking = clickUrl base tid (fst p), clicks = 0, lastClickedAt = None\<rparr>)
               (enumerate index (filter qualifies hrefs))"
  by (induction hrefs arbitrary: index html links) simp_all

text \<open>
  Whatever the body is, the registry gets one entry per match of the link
  pattern whose URL qualifies, in the order of the matches, the \<open>k\<close>-th with
  index \<open>k\<close>.
\<close>

lemma registry_has_one_entry_per_match:
  "snd (addTracking html tid base)
   = map (\<lambda>p. \<lparr>original = snd p, tracking = clickUrl base tid (fst p), clicks = 0, lastClickedAt = None\<rparr>)
       (enumerate 0 (filter qualifies (execAll html)))"
  by (simp add: addTracking_def trackLinks_registry)

text \<open>
  C4, as stated, fails. The two anchors of the body
  \<^verbatim>\<open><a href="https://x.test">A</a><a href="https://x.test">B</a>\<close> are two
  matches of the link pattern; each gets an index and a registry entry of its
  own, and \<^verbatim>\<open>replace\<close> with a string pattern rewrites the first occurrence
  only: the first anchor is rewritten to index 0, the second to index 1.
\<close>

theorem identical_anchors_counterexample:
  "addTracking ''<a href=\"https://x.test\">A</a><a href=\"https://x.test\">B</a>'' ''k1'' ''http://localhost:3000''
   = (''<a href=\"http://localhost:3000/track/click/k1/0\">A</a><a href=\"http://localhost:3000/track/click/k1/1\">B</a><img src=\"http://localhost:3000/track/open/k1\" width=\"1\" height=\"1\" alt=\"\" style=\"display:none;\" />'',
      [\<lparr>original = ''https://x.test'', tracking = ''http://localhost:3000/track/click/k1/0'',
         clicks = 0, lastClickedAt = None\<rparr>,
       \<lparr>original = ''https://x.test'', tracking = ''http://localhost:3000/track/click/k1/1'',
         clicks = 0, lastClickedAt = None\<rparr>])"
  by code_simp

end
